theory Spec2Isabelle
  imports Complex_Main
begin

unbundle bit_operations_syntax

section \<open>Data model (types.ts)\<close>

text \<open>
  A JavaScript \<open>number\<close> as this program produces it for a note: every numeric field of a
  \<open>HitObject\<close> comes from \<open>parseInt\<close> (osuParser.ts) or from the integer arithmetic of
  \<open>generateDemoTrack\<close>, so it is an integer or \<open>NaN\<close>. Integers are kept exact (the
  rounding of doubles beyond \<open>2^53\<close> is not modelled).
\<close>

datatype number = NaN | Num int

text \<open>
  \<open>interface HitObject\<close>. The fields \<open>x\<close> and \<open>y\<close> are named \<open>xpos\<close> and \<open>ypos\<close>
  here. \<open>endTime\<close> is optional in the source: \<open>None\<close> is \<open>undefined\<close>.
\<close>

record HitObject =
  xpos :: number
  ypos :: number
  time :: number
  type :: number
  hitSound :: number
  endTime :: "number option"
  column :: number

text \<open>
  \<open>interface GameStats\<close>; the fields carry the prefix \<open>gs_\<close> because the engine state
  below has fields of the same names.
\<close>

record GameStats =
  gs_score :: int
  gs_combo :: int
  gs_maxCombo :: int
  gs_perfect :: int
  gs_good :: int
  gs_bad :: int
  gs_miss :: int
  gs_accuracy :: real

section \<open>The judging engine (GameCanvas.tsx)\<close>

definition HIT_WINDOW_PERFECT :: real where
  "HIT_WINDOW_PERFECT = 80"

definition HIT_WINDOW_GOOD :: real where
  "HIT_WINDOW_GOOD = 120"

definition HIT_WINDOW_BAD :: real where
  "HIT_WINDOW_BAD = 160"

definition INPUT_MAPPING :: "string \<Rightarrow> int list option" where
  "INPUT_MAPPING code =
     (if code = ''KeyD'' then Some [4, 5]
      else if code = ''KeyF'' then Some [6, 7]
      else if code = ''KeyJ'' then Some [0, 1]
      else if code = ''KeyK'' then Some [2, 3]
      else None)"

text \<open>The first argument of \<open>registerHit\<close>: \<open>'perfect' | 'good' | 'bad' | 'miss'\<close>.\<close>

datatype hit_type = Perfect | Good | Bad | Miss

text \<open>
  A JavaScript \<open>Set\<close> keeps its elements in insertion order without duplicates; it is
  a duplicate-free list here (\<open>Array.from\<close> of the set is the list itself).
\<close>

definition set_add :: "'a \<Rightarrow> 'a list \<Rightarrow> 'a list" where
  "set_add a xs = (if a \<in> set xs then xs else xs @ [a])"

definition set_delete :: "'a \<Rightarrow> 'a list \<Rightarrow> 'a list" where
  "set_delete a xs = removeAll a xs"

text \<open>
  \<open>interface GameStateRef\<close> (the mutable record behind \<open>state.current\<close>), with the
  fields the judging, scoring and pattern code reads or writes. Left out are the fields
  only the renderer and the audio code use: \<open>startTime\<close>, \<open>isPlaying\<close>, \<open>particles\<close>,
  \<open>judgement\<close>, \<open>keyState\<close>, \<open>inputState\<close>, \<open>lastPressTimes\<close>, \<open>lastHitTimes\<close>,
  \<open>screenShake\<close>, \<open>ringPulse\<close>, \<open>rotation\<close>, \<open>bassPulse\<close>, \<open>notePulse\<close>,
  \<open>rhythmIndex\<close>, \<open>musicIntensity\<close>, \<open>tick\<close>, \<open>hitDeviations\<close>, \<open>doubleHitCount\<close>,
  \<open>hitSoundBuffer\<close>, and \<open>missedIndices\<close>, which the source declares and never
  touches. No judgement, counter or flash decision reads any of them (\<open>lastHitTimes\<close>
  feeds only \<open>isJack\<close>, which only spawns particles).

  \<open>geoFlashes\<close> holds, for each call of \<open>spawnGeometricFlash\<close>, the lanes it was called
  with, oldest first; the fading and removal of flashes by the renderer is not modelled.
  \<open>currentStats\<close> is the React state cell that \<open>updateStats\<close> sets.
\<close>

record GameStateRef =
  score :: int
  combo :: int
  maxCombo :: int
  perfect :: int
  good :: int
  bad :: int
  miss :: int
  processedIndices :: "nat list"
  holdingIndices :: "nat list"
  geoFlashes :: "number list list"
  currentStats :: GameStats

definition initialState :: GameStateRef where
  "initialState =
     \<lparr>score = 0, combo = 0, maxCombo = 0, perfect = 0, good = 0, bad = 0, miss = 0,
      processedIndices = [], holdingIndices = [], geoFlashes = [],
      currentStats = \<lparr>gs_score = 0, gs_combo = 0, gs_maxCombo = 0, gs_perfect = 0,
        gs_good = 0, gs_bad = 0, gs_miss = 0, gs_accuracy = 101\<rparr>\<rparr>"

text \<open>
  \<open>updateStats\<close>: recomputes the statistics from the counters and stores them in
  \<open>currentStats\<close>. Divisions are those of the reals (the rounding of doubles is not
  modelled); both are guarded against a zero divisor as in the source.
\<close>

definition updateStats :: "HitObject list \<Rightarrow> GameStateRef \<Rightarrow> GameStateRef" where
  "updateStats hitObjects s =
     (let currentPoints = perfect s * 300 + good s * 100 + bad s * 50;
          hitsSoFar = perfect s + good s + bad s + miss s;
          maxPointsSoFar = hitsSoFar * 300;
          accuracy = (if maxPointsSoFar > 0
                      then (real_of_int currentPoints / real_of_int maxPointsSoFar) * 101
                      else 101);
          totalMapNotes = int (length hitObjects);
          maxMapPoints = totalMapNotes * 300;
          scoreDisplay = (if maxMapPoints > 0
                          then \<lfloor>(real_of_int currentPoints / real_of_int maxMapPoints) * 1010000\<rfloor>
                          else 0)
      in s\<lparr>currentStats := \<lparr>gs_score = scoreDisplay, gs_combo = combo s,
             gs_maxCombo = maxCombo s, gs_perfect = perfect s, gs_good = good s,
             gs_bad = bad s, gs_miss = miss s, gs_accuracy = accuracy\<rparr>\<rparr>)"

text \<open>
  \<open>registerHit\<close>. The arguments \<open>col\<close>, \<open>diffMs\<close> and \<open>isJack\<close> of the source reach only
  the sound, the judgement text, the particles and the instrumentation fields left out
  above, so the model takes the hit type alone.
\<close>

definition registerHit :: "HitObject list \<Rightarrow> hit_type \<Rightarrow> GameStateRef \<Rightarrow> GameStateRef" where
  "registerHit hitObjects ty s =
     updateStats hitObjects
       (if ty = Miss then s\<lparr>combo := 0, miss := miss s + 1\<rparr>
        else
          (let s1 = s\<lparr>combo := combo s + 1\<rparr>;
               s2 = (if combo s1 > maxCombo s1 then s1\<lparr>maxCombo := combo s1\<rparr> else s1);
               s3 = (if ty = Perfect
                     then s2\<lparr>score := score s2 + 300, perfect := perfect s2 + 1\<rparr> else s2);
               s4 = (if ty = Good
                     then s3\<lparr>score := score s3 + 100, good := good s3 + 1\<rparr> else s3);
               s5 = (if ty = Bad
                     then s4\<lparr>score := score s4 + 50, bad := bad s4 + 1\<rparr> else s4)
           in s5))"

text \<open>
  \<open>if (note.endTime)\<close>: \<open>undefined\<close>, \<open>NaN\<close> and \<open>0\<close> are falsy.
\<close>

fun truthy :: "number option \<Rightarrow> bool" where
  "truthy None = False"
| "truthy (Some NaN) = False"
| "truthy (Some (Num n)) = (n \<noteq> 0)"

text \<open>
  \<open>spawnGeometricFlash\<close>: pushes one flash for the given lanes (its points, colour and
  the screen shake are cosmetic).
\<close>

definition spawnGeometricFlash :: "number list \<Rightarrow> GameStateRef \<Rightarrow> GameStateRef" where
  "spawnGeometricFlash cols s = s\<lparr>geoFlashes := geoFlashes s @ [cols]\<rparr>"

text \<open>
  \<open>detectPatterns\<close>. A comparison with a \<open>NaN\<close> time is false. \<open>uniqueCols\<close> is the
  \<open>Set\<close> built from the columns of \<open>recentHits\<close> in array order.
\<close>

definition detectPatterns :: "HitObject list \<Rightarrow> real \<Rightarrow> GameStateRef \<Rightarrow> GameStateRef" where
  "detectPatterns hitObjects currentTimeMs s =
     (let recentHits = map snd (filter (\<lambda>(idx, obj).
              idx \<in> set (processedIndices s) \<and>
              (case time obj of NaN \<Rightarrow> False
               | Num tm \<Rightarrow> \<bar>real_of_int tm - currentTimeMs\<bar> < 40))
            (enumerate 0 hitObjects));
          uniqueCols = foldl (\<lambda>acc h. set_add (column h) acc) [] recentHits
      in if length uniqueCols \<ge> 2 then spawnGeometricFlash uniqueCols s else s)"

text \<open>
  The local \<open>bestHit\<close> of \<open>handleInput\<close>: \<open>{ note, idx, diff, absDiff }\<close>
  (\<open>note\<close> is a keyword of Isabelle, hence the prefix).
\<close>

record BestHit =
  bh_note :: HitObject
  bh_idx :: nat
  bh_diff :: real
  bh_absDiff :: real

text \<open>
  The \<open>visibleNotes\<close> of \<open>handleInput\<close> for one lane \<open>col\<close>: the unprocessed notes of
  that lane with \<open>obj.time - currentTimeMs < HIT_WINDOW_BAD\<close>. Each kept note comes with
  its index (the source recovers it with \<open>indexOf\<close>, by object identity) and with the
  difference \<open>obj.time - currentTimeMs\<close>; a note whose time is \<open>NaN\<close> fails the
  comparison and is dropped.
\<close>

definition inputVisibleNotes ::
  "HitObject list \<Rightarrow> GameStateRef \<Rightarrow> real \<Rightarrow> int \<Rightarrow> (nat \<times> HitObject \<times> real) list" where
  "inputVisibleNotes hitObjects s currentTimeMs col =
     List.map_filter (\<lambda>(idx, obj).
        case time obj of
          NaN \<Rightarrow> None
        | Num tm \<Rightarrow>
            if column obj = Num col \<and> idx \<notin> set (processedIndices s) \<and>
               real_of_int tm - currentTimeMs < HIT_WINDOW_BAD
            then Some (idx, obj, real_of_int tm - currentTimeMs) else None)
       (enumerate 0 hitObjects)"

text \<open>
  The body of \<open>lanes.forEach\<close> in \<open>handleInput\<close>: the lane's notes are sorted by
  \<open>|time - currentTimeMs|\<close> (\<open>Array.prototype.sort\<close> is stable, as \<open>sort_key\<close> is), the
  first one is the lane's candidate, and it replaces \<open>bestHit\<close> when there is none yet or
  its \<open>absDiff\<close> is strictly smaller.
\<close>

definition laneStep ::
  "HitObject list \<Rightarrow> GameStateRef \<Rightarrow> real \<Rightarrow> BestHit option \<Rightarrow> int \<Rightarrow> BestHit option" where
  "laneStep hitObjects s currentTimeMs bestHit col =
     (case sort_key (\<lambda>(idx, obj, d). \<bar>d\<bar>) (inputVisibleNotes hitObjects s currentTimeMs col) of
        [] \<Rightarrow> bestHit
      | (idx, candidate, diff) # _ \<Rightarrow>
          (let absDiff = \<bar>diff\<bar> in
           if (case bestHit of None \<Rightarrow> True | Some b \<Rightarrow> absDiff < bh_absDiff b)
           then Some \<lparr>bh_note = candidate, bh_idx = idx, bh_diff = diff, bh_absDiff = absDiff\<rparr>
           else bestHit))"

definition findBestHit ::
  "HitObject list \<Rightarrow> GameStateRef \<Rightarrow> real \<Rightarrow> int list \<Rightarrow> BestHit option" where
  "findBestHit hitObjects s currentTimeMs lanes =
     foldl (laneStep hitObjects s currentTimeMs) None lanes"

text \<open>
  The chain of comparisons on \<open>bestHit\<close> in \<open>handleInput\<close> (lines 368 to 380): which hit
  type, if any, the matched note is registered with.
\<close>

definition judge :: "real \<Rightarrow> real \<Rightarrow> hit_type option" where
  "judge diff absDiff =
     (if absDiff \<le> HIT_WINDOW_PERFECT then Some Perfect
      else if absDiff \<le> HIT_WINDOW_GOOD then Some Good
      else if diff > HIT_WINDOW_GOOD \<and> diff \<le> HIT_WINDOW_BAD then Some Bad
      else None)"

text \<open>
  The three statements every branch of that chain runs: mark the note processed, mark
  it held when it has an \<open>endTime\<close>, register the hit.
\<close>

definition resolveHit :: "HitObject list \<Rightarrow> BestHit \<Rightarrow> hit_type \<Rightarrow> GameStateRef \<Rightarrow> GameStateRef" where
  "resolveHit hitObjects b ty s =
     (let s1 = s\<lparr>processedIndices := set_add (bh_idx b) (processedIndices s)\<rparr>;
          s2 = (if truthy (endTime (bh_note b))
                then s1\<lparr>holdingIndices := set_add (bh_idx b) (holdingIndices s1)\<rparr> else s1)
      in registerHit hitObjects ty s2)"

text \<open>
  The body of \<open>lanes.forEach\<close> on key-up: the first held index (in insertion order)
  whose note is in lane \<open>col\<close> leaves \<open>holdingIndices\<close>. Held indices always index the
  chart, so the bound check only keeps \<open>!\<close> in range.
\<close>

definition releaseLane :: "HitObject list \<Rightarrow> GameStateRef \<Rightarrow> int \<Rightarrow> GameStateRef" where
  "releaseLane hitObjects s col =
     (case List.find (\<lambda>idx. idx < length hitObjects \<and> column (hitObjects ! idx) = Num col)
             (holdingIndices s) of
        None \<Rightarrow> s
      | Some holdingIdx \<Rightarrow> s\<lparr>holdingIndices := set_delete holdingIdx (holdingIndices s)\<rparr>)"

text \<open>
  \<open>handleInput\<close>, with the engine clock \<open>currentTimeMs\<close> it samples on entry
  (\<open>audioContext.currentTime * 1000 - startTime - audioOffset\<close>) as an argument. The audio
  context exists while a chart is played. A press that matches no note only lights a
  receptor, which is not modelled.
\<close>

definition handleInput ::
  "HitObject list \<Rightarrow> int list \<Rightarrow> bool \<Rightarrow> real \<Rightarrow> GameStateRef \<Rightarrow> GameStateRef" where
  "handleInput hitObjects lanes isDown currentTimeMs s =
     (if isDown then
        detectPatterns hitObjects currentTimeMs
          (case findBestHit hitObjects s currentTimeMs lanes of
             None \<Rightarrow> s
           | Some b \<Rightarrow>
               (case judge (bh_diff b) (bh_absDiff b) of
                  None \<Rightarrow> s
                | Some ty \<Rightarrow> resolveHit hitObjects b ty s))
      else foldl (releaseLane hitObjects) s lanes)"

text \<open>
  The \<open>visibleNotes\<close> of \<open>gameLoop\<close>: notes that are not processed, or are still held,
  with \<open>currentTimeMs - 200 \<le> obj.time \<le> currentTimeMs + noteSpeed * 1000\<close>. Each comes
  with its index and its time.
\<close>

definition loopVisibleNotes ::
  "HitObject list \<Rightarrow> real \<Rightarrow> real \<Rightarrow> GameStateRef \<Rightarrow> (nat \<times> HitObject \<times> real) list" where
  "loopVisibleNotes hitObjects noteSpeed currentTimeMs s =
     List.map_filter (\<lambda>(idx, obj).
        if idx \<in> set (processedIndices s) \<and> idx \<notin> set (holdingIndices s) then None
        else (case time obj of
            NaN \<Rightarrow> None
          | Num tm \<Rightarrow>
              if real_of_int tm \<ge> currentTimeMs - 200 \<and>
                 real_of_int tm \<le> currentTimeMs + noteSpeed * 1000
              then Some (idx, obj, real_of_int tm) else None))
       (enumerate 0 hitObjects)"

text \<open>
  \<open>progress < 0\<close> for \<open>progress = 1 - timeUntilHit / (noteSpeed * 1000)\<close>. JavaScript
  divides by zero to an infinity of the dividend's sign (or \<open>NaN\<close> for \<open>0 / 0\<close>), so with
  a zero divisor the test holds exactly when \<open>timeUntilHit\<close> is positive.
\<close>

definition progressNegative :: "real \<Rightarrow> real \<Rightarrow> bool" where
  "progressNegative timeUntilHit noteSpeed =
     (if noteSpeed * 1000 = 0 then timeUntilHit > 0
      else 1 - timeUntilHit / (noteSpeed * 1000) < 0)"

text \<open>
  The judging part of the body of \<open>visibleNotes.forEach\<close> in \<open>gameLoop\<close> (lines 695 to
  705); the rest of the body draws the note.
\<close>

definition noteStep ::
  "HitObject list \<Rightarrow> real \<Rightarrow> real \<Rightarrow> GameStateRef \<Rightarrow> nat \<times> HitObject \<times> real \<Rightarrow> GameStateRef" where
  "noteStep hitObjects noteSpeed currentTimeMs s v =
     (case v of (idx, obj, tm) \<Rightarrow>
        (let timeUntilHit = tm - currentTimeMs in
         if progressNegative timeUntilHit noteSpeed then s
         else if idx \<notin> set (processedIndices s) \<and> timeUntilHit < - HIT_WINDOW_BAD
         then registerHit hitObjects Miss
                (s\<lparr>processedIndices := set_add idx (processedIndices s)\<rparr>)
         else s))"

text \<open>
  \<open>gameLoop\<close>, one animation frame at engine clock \<open>currentTimeMs\<close>, while the canvases
  and the audio context exist (without them the loop returns and stops): the list of visible
  notes is computed first, then scanned. Drawing is not modelled.
\<close>

definition gameLoop :: "HitObject list \<Rightarrow> real \<Rightarrow> real \<Rightarrow> GameStateRef \<Rightarrow> GameStateRef" where
  "gameLoop hitObjects noteSpeed currentTimeMs s =
     foldl (noteStep hitObjects noteSpeed currentTimeMs) s
       (loopVisibleNotes hitObjects noteSpeed currentTimeMs s)"

text \<open>
  What drives the engine: key events (with the key code, \<open>ev.repeat\<close> for a key-down,
  and the engine clock at the event) and animation frames.
\<close>

datatype event = KeyDown string bool real | KeyUp string real | Frame real

text \<open>
  The key listeners \<open>handleKeyDown\<close> and \<open>handleKeyUp\<close>. The exit on Escape and the
  receptor and assist lights (\<open>keyState\<close>, \<open>inputState\<close>) are not modelled.
\<close>

definition handleKeyDown ::
  "HitObject list \<Rightarrow> bool \<Rightarrow> string \<Rightarrow> bool \<Rightarrow> real \<Rightarrow> GameStateRef \<Rightarrow> GameStateRef" where
  "handleKeyDown hitObjects autoPlay code repeat currentTimeMs s =
     (if autoPlay \<or> repeat then s
      else (case INPUT_MAPPING code of
          Some lanes \<Rightarrow> handleInput hitObjects lanes True currentTimeMs s
        | None \<Rightarrow> s))"

definition handleKeyUp ::
  "HitObject list \<Rightarrow> bool \<Rightarrow> string \<Rightarrow> real \<Rightarrow> GameStateRef \<Rightarrow> GameStateRef" where
  "handleKeyUp hitObjects autoPlay code currentTimeMs s =
     (if autoPlay then s
      else (case INPUT_MAPPING code of
          Some lanes \<Rightarrow> handleInput hitObjects lanes False currentTimeMs s
        | None \<Rightarrow> s))"

text \<open>
  One event applied to the state, and a run: the events applied in order from the initial
  state, for a chart, the \<open>autoPlay\<close> flag and the note speed.
\<close>

fun step :: "HitObject list \<Rightarrow> bool \<Rightarrow> real \<Rightarrow> GameStateRef \<Rightarrow> event \<Rightarrow> GameStateRef" where
  "step hitObjects autoPlay noteSpeed s (KeyDown code repeat t) =
     handleKeyDown hitObjects autoPlay code repeat t s"
| "step hitObjects autoPlay noteSpeed s (KeyUp code t) =
     handleKeyUp hitObjects autoPlay code t s"
| "step hitObjects autoPlay noteSpeed s (Frame t) = gameLoop hitObjects noteSpeed t s"

definition run :: "HitObject list \<Rightarrow> bool \<Rightarrow> real \<Rightarrow> event list \<Rightarrow> GameStateRef" where
  "run hitObjects autoPlay noteSpeed evs = foldl (step hitObjects autoPlay noteSpeed) initialState evs"

section \<open>The chart decoder (osuParser.ts)\<close>

subsection \<open>Strings\<close>

text \<open>
  A chart text is a list of characters, each one code unit below 256 (a text with
  code units beyond that range is outside this model). \<open>WhiteSpace\<close> and
  \<open>LineTerminator\<close> of ECMAScript in that range: tab, line feed, vertical tab, form feed,
  carriage return, space and no-break space.
\<close>

definition isWhiteSpace :: "char \<Rightarrow> bool" where
  "isWhiteSpace c = ((of_char c :: nat) \<in> {9, 10, 11, 12, 13, 32, 160})"

definition trimStart :: "string \<Rightarrow> string" where
  "trimStart s = dropWhile isWhiteSpace s"

definition trim :: "string \<Rightarrow> string" where
  "trim s = rev (trimStart (rev (trimStart s)))"

text \<open>\<open>String.prototype.split\<close> with a one-character separator: never an empty array.\<close>

fun split :: "char \<Rightarrow> string \<Rightarrow> string list" where
  "split sep [] = [[]]"
| "split sep (c # cs) =
     (if c = sep then [] # split sep cs
      else (case split sep cs of [] \<Rightarrow> [[c]] | p # ps \<Rightarrow> (c # p) # ps))"

text \<open>Reading an array element: \<open>None\<close> is \<open>undefined\<close>, past the end.\<close>

definition elemAt :: "'a list \<Rightarrow> nat \<Rightarrow> 'a option" where
  "elemAt xs i = (if i < length xs then Some (xs ! i) else None)"

definition startsWith :: "string \<Rightarrow> string \<Rightarrow> bool" where
  "startsWith s p = (take (length p) s = p)"

definition endsWith :: "string \<Rightarrow> string \<Rightarrow> bool" where
  "endsWith s p = (length p \<le> length s \<and> drop (length s - length p) s = p)"

text \<open>\<open>s.slice(1, -1)\<close>.\<close>

definition slice_1_m1 :: "string \<Rightarrow> string" where
  "slice_1_m1 s = butlast (tl s)"

text \<open>\<open>toLowerCase\<close> on code units below 256.\<close>

definition lowerChar :: "char \<Rightarrow> char" where
  "lowerChar c =
     (let n = (of_char c :: nat) in
      if (65 \<le> n \<and> n \<le> 90) \<or> (192 \<le> n \<and> n \<le> 222 \<and> n \<noteq> 215)
      then char_of (n + 32) else c)"

definition toLowerCase :: "string \<Rightarrow> string" where
  "toLowerCase s = map lowerChar s"

subsection \<open>Numbers\<close>

definition digitValue :: "char \<Rightarrow> nat option" where
  "digitValue c =
     (let n = (of_char c :: nat) in
      if 48 \<le> n \<and> n \<le> 57 then Some (n - 48)
      else if 97 \<le> n \<and> n \<le> 122 then Some (n - 87)
      else if 65 \<le> n \<and> n \<le> 90 then Some (n - 55)
      else None)"

definition isDigit :: "nat \<Rightarrow> char \<Rightarrow> bool" where
  "isDigit radix c = (case digitValue c of None \<Rightarrow> False | Some d \<Rightarrow> d < radix)"

definition digitsValue :: "nat \<Rightarrow> string \<Rightarrow> int" where
  "digitsValue radix ds =
     foldl (\<lambda>acc c. acc * int radix + int (case digitValue c of None \<Rightarrow> 0 | Some d \<Rightarrow> d)) 0 ds"

text \<open>
  \<open>parseInt(string)\<close> with no radix argument, on an array element or a destructured
  value that may be \<open>undefined\<close> (\<open>None\<close>; it reads as the string "undefined", which has no
  digit): leading white space is skipped, then an optional sign, then an optional
  \<open>0x\<close> or \<open>0X\<close> that switches to radix 16, then the longest run of digits; no digit gives
  \<open>NaN\<close>.
\<close>

definition parseInt :: "string option \<Rightarrow> number" where
  "parseInt v =
     (case v of
        None \<Rightarrow> NaN
      | Some str \<Rightarrow>
          (let s = trimStart str;
               negative = startsWith s ''-'';
               s1 = (if startsWith s ''-'' \<or> startsWith s ''+'' then tl s else s);
               hex = (startsWith s1 ''0x'' \<or> startsWith s1 ''0X'');
               radix = (if hex then 16 else 10);
               s2 = (if hex then drop 2 s1 else s1);
               z = takeWhile (isDigit radix) s2
           in if z = [] then NaN
              else Num ((if negative then - 1 else 1) * digitsValue radix z)))"

text \<open>\<open>ToInt32\<close>, as the operator \<open>&\<close> applies it to its operands.\<close>

definition toInt32 :: "number \<Rightarrow> int" where
  "toInt32 v = (case v of NaN \<Rightarrow> 0 | Num n \<Rightarrow> (n + 2147483648) mod 4294967296 - 2147483648)"

text \<open>The remainder operator \<open>%\<close> on integers: the sign of the dividend.\<close>

definition js_rem :: "int \<Rightarrow> int \<Rightarrow> int" where
  "js_rem a b = sgn a * (\<bar>a\<bar> mod \<bar>b\<bar>)"

subsection \<open>Decoding a chart text\<close>

text \<open>
  \<open>interface BeatmapData\<close>. The field \<open>id\<close> is named \<open>ident\<close> here. The fields that
  \<open>parseOsuText\<close> assigns from the destructured \<open>value\<close> of a \<open>key: value\<close> line are
  optional strings, since a line without a colon leaves \<open>value\<close> \<open>undefined\<close> (\<open>None\<close>).
  \<open>audioBuffer\<close> holds the content of the audio entry that was decoded. \<open>bpm\<close> is left
  out with the \<open>[TimingPoints]\<close> branch and the tempo derivation that compute it: they
  work on \<open>parseFloat\<close> values, cannot throw, and never touch \<open>hitObjects\<close>.
\<close>

record BeatmapData =
  ident :: string
  title :: "string option"
  artist :: "string option"
  creator :: "string option"
  version :: "string option"
  audioFilename :: "string option"
  hitObjects :: "HitObject list"
  audioBuffer :: "string option"
  backgroundImage :: "string option"

text \<open>
  What makes loading fail: the two \<open>throw new Error\<close> of \<open>parseOSZ\<close>, a \<open>TypeError\<close>
  for a method call on \<open>undefined\<close>, and a rejected \<open>decodeAudioData\<close>.
\<close>

datatype error = NoOsuFile | CouldNotReadOsu | TypeError | AudioDecodeError

text \<open>
  The locals of \<open>parseOsuText\<close> that live across lines (\<open>section\<close> is named
  \<open>currentSection\<close> here).
\<close>

record ParseState =
  currentSection :: string
  data :: BeatmapData
  circleSize :: number

text \<open>\<open>Math.floor(x * circleSize / 512)\<close>.\<close>

definition rawColumn :: "number \<Rightarrow> number \<Rightarrow> number" where
  "rawColumn x cs =
     (case x of NaN \<Rightarrow> NaN
      | Num a \<Rightarrow> (case cs of NaN \<Rightarrow> NaN | Num b \<Rightarrow> Num ((a * b) div 512)))"

text \<open>
  The quadrant mapping for \<open>circleSize === 4\<close>: \<open>snap = Math.floor(time / 20)\<close>,
  \<open>variance = (snap + column) % 2\<close>, and each of the columns 0 to 3 goes to one of two
  lanes by \<open>variance === 0\<close>; with a \<open>NaN\<close> time the variance is \<open>NaN\<close> and the test is false.
\<close>

definition quadrant :: "number \<Rightarrow> int \<Rightarrow> int" where
  "quadrant tm col =
     (let variance = (case tm of NaN \<Rightarrow> NaN | Num t \<Rightarrow> Num (js_rem (t div 20 + col) 2)) in
      if col = 0 then (if variance = Num 0 then 5 else 4)
      else if col = 1 then (if variance = Num 0 then 6 else 7)
      else if col = 2 then (if variance = Num 0 then 0 else 1)
      else if col = 3 then (if variance = Num 0 then 2 else 3)
      else col)"

text \<open>\<open>Math.max(0, Math.min(column, 7))\<close>.\<close>

definition clampColumn :: "number \<Rightarrow> number" where
  "clampColumn c = (case c of NaN \<Rightarrow> NaN | Num n \<Rightarrow> Num (max 0 (min n 7)))"

text \<open>
  The \<open>[HitObjects]\<close> branch for one line. \<open>parts[5].split(':')\<close> throws a \<open>TypeError\<close>
  when the line has fewer than six fields.
\<close>

definition parseHitObject :: "number \<Rightarrow> string \<Rightarrow> error + HitObject" where
  "parseHitObject cs line =
     (let parts = split (CHR '','') line;
          x = parseInt (elemAt parts 0);
          y = parseInt (elemAt parts 1);
          tm = parseInt (elemAt parts 2);
          ty = parseInt (elemAt parts 3);
          hs = parseInt (elemAt parts 4);
          col0 = rawColumn x cs;
          col = (if cs = Num 4
                 then (case col0 of NaN \<Rightarrow> NaN | Num c \<Rightarrow> Num (quadrant tm c))
                 else col0);
          clampedColumn = clampColumn col
      in if (toInt32 ty AND 128) > 0
         then (case elemAt parts 5 of
             None \<Rightarrow> Inl TypeError
           | Some extra \<Rightarrow>
               Inr \<lparr>xpos = x, ypos = y, time = tm, type = ty, hitSound = hs,
                    endTime = Some (parseInt (elemAt (split (CHR '':'') extra) 0)),
                    column = clampedColumn\<rparr>)
         else Inr \<lparr>xpos = x, ypos = y, time = tm, type = ty, hitSound = hs,
                  endTime = None, column = clampedColumn\<rparr>)"

text \<open>\<open>const [key, value] = line.split(':').map(s => s.trim())\<close>.\<close>

definition keyValue :: "string \<Rightarrow> string \<times> string option" where
  "keyValue line =
     (let parts = map trim (split (CHR '':'') line)
      in (case elemAt parts 0 of None \<Rightarrow> [] | Some k \<Rightarrow> k, elemAt parts 1))"

text \<open>
  The test of the \<open>[Events]\<close> branch on a background name:
  \<open>bgName.match(/\.(jpg|jpeg|png)$/i)\<close>.
\<close>

definition isImageName :: "string \<Rightarrow> bool" where
  "isImageName bgName =
     (let l = toLowerCase bgName
      in endsWith l ''.jpg'' \<or> endsWith l ''.jpeg'' \<or> endsWith l ''.png'')"

text \<open>\<open>!data.backgroundImage\<close>: \<open>undefined\<close> and the empty string are falsy.\<close>

definition noBackground :: "string option \<Rightarrow> bool" where
  "noBackground b = (b = None \<or> b = Some [])"

definition parseEvent :: "string \<Rightarrow> BeatmapData \<Rightarrow> BeatmapData" where
  "parseEvent line d =
     (if startsWith line ''0,0,'' then
        (let parts = split (CHR '','') line in
         if length parts \<ge> 3 then
           (let bgName0 = parts ! 2;
                bgName = (if startsWith bgName0 [CHR 0x22] \<and> endsWith bgName0 [CHR 0x22]
                          then slice_1_m1 bgName0 else bgName0)
            in if noBackground (backgroundImage d) \<and> isImageName bgName
               then d\<lparr>backgroundImage := Some bgName\<rparr> else d)
         else d)
      else d)"

text \<open>The body of the loop over the lines of \<open>parseOsuText\<close>.\<close>

definition parseLine :: "ParseState \<Rightarrow> string \<Rightarrow> error + ParseState" where
  "parseLine st rawLine =
     (let line = trim rawLine in
      if line = [] \<or> startsWith line ''//'' then Inr st
      else if startsWith line ''['' then Inr (st\<lparr>currentSection := slice_1_m1 line\<rparr>)
      else if currentSection st = ''General'' then
        (case keyValue line of (key, v) \<Rightarrow>
           Inr (if key = ''AudioFilename'' then st\<lparr>data := (data st)\<lparr>audioFilename := v\<rparr>\<rparr> else st))
      else if currentSection st = ''Metadata'' then
        (case keyValue line of (key, v) \<Rightarrow>
           (let d1 = (if key = ''Title'' then (data st)\<lparr>title := v\<rparr> else data st);
                d2 = (if key = ''Artist'' then d1\<lparr>artist := v\<rparr> else d1);
                d3 = (if key = ''Creator'' then d2\<lparr>creator := v\<rparr> else d2);
                d4 = (if key = ''Version'' then d3\<lparr>version := v\<rparr> else d3)
            in Inr (st\<lparr>data := d4\<rparr>)))
      else if currentSection st = ''Difficulty'' then
        (case keyValue line of (key, v) \<Rightarrow>
           Inr (if key = ''CircleSize'' then st\<lparr>circleSize := parseInt v\<rparr> else st))
      else if currentSection st = ''Events'' then Inr (st\<lparr>data := parseEvent line (data st)\<rparr>)
      else if currentSection st = ''TimingPoints'' then Inr st
      else if currentSection st = ''HitObjects'' then
        (case parseHitObject (circleSize st) line of
           Inl e \<Rightarrow> Inl e
         | Inr h \<Rightarrow> Inr (st\<lparr>data := (data st)\<lparr>hitObjects := hitObjects (data st) @ [h]\<rparr>\<rparr>))
      else Inr st)"

text \<open>The loop: the first line that throws ends the decoding.\<close>

fun parseLines :: "ParseState \<Rightarrow> string list \<Rightarrow> error + ParseState" where
  "parseLines st [] = Inr st"
| "parseLines st (l # ls) =
     (case parseLine st l of Inl e \<Rightarrow> Inl e | Inr st' \<Rightarrow> parseLines st' ls)"

text \<open>
  \<open>data.hitObjects.sort((a, b) => a.time - b.time)\<close>. A comparator result of \<open>NaN\<close>
  counts as \<open>0\<close>, so \<open>a\<close> is placed before \<open>b\<close> unless both times are numbers and
  \<open>a.time > b.time\<close>. The sort is stable; it is written as the stable insertion sort. When
  some time is \<open>NaN\<close> the comparator is not consistent and ECMAScript leaves the resulting
  order to the implementation: the order the model gives then is one possible outcome, and
  nothing below relies on it.
\<close>

definition timeAfter :: "HitObject \<Rightarrow> HitObject \<Rightarrow> bool" where
  "timeAfter a b =
     (case time a of NaN \<Rightarrow> False
      | Num ta \<Rightarrow> (case time b of NaN \<Rightarrow> False | Num tb \<Rightarrow> ta - tb > 0))"

fun insertByTime :: "HitObject \<Rightarrow> HitObject list \<Rightarrow> HitObject list" where
  "insertByTime a [] = [a]"
| "insertByTime a (b # bs) = (if timeAfter a b then b # insertByTime a bs else a # b # bs)"

definition sortByTime :: "HitObject list \<Rightarrow> HitObject list" where
  "sortByTime hs = foldr insertByTime hs []"

definition initialData :: BeatmapData where
  "initialData =
     \<lparr>ident = [], title = Some ''Unknown'', artist = Some ''Unknown'',
      creator = Some ''Unknown'', version = Some ''Normal'', audioFilename = Some [],
      hitObjects = [], audioBuffer = None, backgroundImage = None\<rparr>"

definition parseOsuText :: "string \<Rightarrow> error + BeatmapData" where
  "parseOsuText text =
     (case parseLines \<lparr>currentSection = [], data = initialData, circleSize = Num 4\<rparr>
             (split (CHR 0x0A) text) of
        Inl e \<Rightarrow> Inl e
      | Inr st \<Rightarrow> Inr ((data st)\<lparr>hitObjects := sortByTime (hitObjects (data st))\<rparr>))"

subsection \<open>Loading a chart container\<close>



section \<open>Notions used to state the properties\<close>

text \<open>
  None of the definitions of this section is code of the repository: they name what the
  properties below talk about. \<open>timeReal\<close> is a note's time as a real number (0 for
  \<open>NaN\<close>, used only next to \<open>isNum\<close>).
\<close>

definition timeReal :: "HitObject \<Rightarrow> real" where
  "timeReal h = (case time h of NaN \<Rightarrow> 0 | Num tm \<Rightarrow> real_of_int tm)"

definition isNum :: "number \<Rightarrow> bool" where
  "isNum v = (case v of NaN \<Rightarrow> False | Num n \<Rightarrow> True)"

text \<open>
  What \<open>findBestHit\<close> may return for the lanes \<open>L\<close>: an unprocessed note of the chart in
  one of these lanes, less than 160 ms ahead of the clock, with its index and its
  difference to the clock.
\<close>

definition isCandidate :: "HitObject list \<Rightarrow> GameStateRef \<Rightarrow> real \<Rightarrow> int set \<Rightarrow> BestHit \<Rightarrow> bool" where
  "isCandidate hs s t L b =
     (bh_idx b < length hs \<and> bh_note b = hs ! bh_idx b \<and>
      bh_idx b \<notin> set (processedIndices s) \<and>
      (\<exists>tm. time (bh_note b) = Num tm \<and> bh_diff b = real_of_int tm - t) \<and>
      bh_diff b < HIT_WINDOW_BAD \<and> bh_absDiff b = \<bar>bh_diff b\<bar> \<and>
      (\<exists>col\<in>L. column (bh_note b) = Num col))"

text \<open>
  The score, the combo and the counters of a state; \<open>resolvedAs ty i s s'\<close> says that
  from \<open>s\<close> to \<open>s'\<close> exactly note \<open>i\<close> was marked processed and one hit of type \<open>ty\<close> was
  registered, \<open>unjudged s s'\<close> that no note was marked and nothing was registered.
\<close>

definition scoreboard :: "GameStateRef \<Rightarrow> int \<times> int \<times> int \<times> int \<times> int \<times> int \<times> int" where
  "scoreboard s = (score s, combo s, maxCombo s, perfect s, good s, bad s, miss s)"

definition resolvedAs :: "hit_type \<Rightarrow> nat \<Rightarrow> GameStateRef \<Rightarrow> GameStateRef \<Rightarrow> bool" where
  "resolvedAs ty i s s' =
     (processedIndices s' = processedIndices s @ [i] \<and>
      scoreboard s' = scoreboard (registerHit [] ty s))"

definition unjudged :: "GameStateRef \<Rightarrow> GameStateRef \<Rightarrow> bool" where
  "unjudged s s' =
     (processedIndices s' = processedIndices s \<and> scoreboard s' = scoreboard s)"

text \<open>A tap note (no \<open>endTime\<close>) at a time in a lane, for concrete charts.\<close>

definition tapNote :: "int \<Rightarrow> int \<Rightarrow> HitObject" where
  "tapNote tm col =
     \<lparr>xpos = Num 0, ypos = Num 0, time = Num tm, type = Num 1, hitSound = Num 0,
      endTime = None, column = Num col\<rparr>"

text \<open>
  The notes a frame at clock \<open>t\<close> finds due for a miss: not yet processed, and more
  than 160 ms but at most 200 ms past their time.
\<close>

definition dueNotes :: "HitObject list \<Rightarrow> real \<Rightarrow> GameStateRef \<Rightarrow> nat list" where
  "dueNotes hs t s =
     filter (\<lambda>i. i \<notin> set (processedIndices s) \<and>
        (case time (hs ! i) of
           NaN \<Rightarrow> False
         | Num tm \<Rightarrow> 160 < t - real_of_int tm \<and> t - real_of_int tm \<le> 200))
       [0..<length hs]"

text \<open>One automatic miss of note \<open>i\<close>, and the test \<open>noteStep\<close> makes for it.\<close>

definition missOne :: "HitObject list \<Rightarrow> GameStateRef \<Rightarrow> nat \<Rightarrow> GameStateRef" where
  "missOne hs s i = registerHit hs Miss (s\<lparr>processedIndices := processedIndices s @ [i]\<rparr>)"

definition missable :: "HitObject list \<Rightarrow> real \<Rightarrow> real \<Rightarrow> GameStateRef \<Rightarrow> nat \<Rightarrow> bool" where
  "missable hs ns t s i =
     (\<not> progressNegative (timeReal (hs ! i) - t) ns \<and> i \<notin> set (processedIndices s) \<and>
      timeReal (hs ! i) - t < - HIT_WINDOW_BAD)"

text \<open>
  The judgements an event makes, each the index of the note and the hit type it is
  registered with: what a key-down judges (at most one note), what a frame judges (the
  misses of its scan), and the judgements of a whole run in order. They read the same
  functions as \<open>handleInput\<close> and \<open>gameLoop\<close>; the theorems below tie them to the state.
\<close>

definition pressJudgement ::
  "HitObject list \<Rightarrow> int list \<Rightarrow> real \<Rightarrow> GameStateRef \<Rightarrow> (nat \<times> hit_type) list" where
  "pressJudgement hs lanes t s =
     (case findBestHit hs s t lanes of
        None \<Rightarrow> []
      | Some b \<Rightarrow>
          (case judge (bh_diff b) (bh_absDiff b) of
             None \<Rightarrow> []
           | Some ty \<Rightarrow> [(bh_idx b, ty)]))"

definition frameJudgements ::
  "HitObject list \<Rightarrow> real \<Rightarrow> real \<Rightarrow> GameStateRef \<Rightarrow> (nat \<times> hit_type) list" where
  "frameJudgements hs ns t s =
     map (\<lambda>v. (fst v, Miss))
       (filter (\<lambda>v. case v of (idx, obj, tm) \<Rightarrow>
            \<not> progressNegative (tm - t) ns \<and> idx \<notin> set (processedIndices s) \<and>
            tm - t < - HIT_WINDOW_BAD)
          (loopVisibleNotes hs ns t s))"

fun stepJudgements ::
  "HitObject list \<Rightarrow> bool \<Rightarrow> real \<Rightarrow> GameStateRef \<Rightarrow> event \<Rightarrow> (nat \<times> hit_type) list" where
  "stepJudgements hs ap ns s (KeyDown code repeat t) =
     (if ap \<or> repeat then []
      else (case INPUT_MAPPING code of None \<Rightarrow> [] | Some lanes \<Rightarrow> pressJudgement hs lanes t s))"
| "stepJudgements hs ap ns s (KeyUp code t) = []"
| "stepJudgements hs ap ns s (Frame t) = frameJudgements hs ns t s"

fun judgements ::
  "HitObject list \<Rightarrow> bool \<Rightarrow> real \<Rightarrow> GameStateRef \<Rightarrow> event list \<Rightarrow> (nat \<times> hit_type) list" where
  "judgements hs ap ns s [] = []"
| "judgements hs ap ns s (e # es) =
     stepJudgements hs ap ns s e @ judgements hs ap ns (step hs ap ns s e) es"

text \<open>
  One judgement applied to a state, and the part of a state that judging reads and writes:
  score, combo and counters, the processed indices, and the statistics.
\<close>

definition applyJudgement :: "HitObject list \<Rightarrow> GameStateRef \<Rightarrow> nat \<times> hit_type \<Rightarrow> GameStateRef" where
  "applyJudgement hs s j =
     registerHit hs (snd j) (s\<lparr>processedIndices := processedIndices s @ [fst j]\<rparr>)"

definition core ::
  "GameStateRef \<Rightarrow> (int \<times> int \<times> int \<times> int \<times> int \<times> int \<times> int) \<times> nat list \<times> GameStats" where
  "core s = (scoreboard s, processedIndices s, currentStats s)"

text \<open>
  The accuracy as the specification words it: the points earned so far, over 300 for each
  note judged so far (misses included), times 101; and 101 when no note was judged.
\<close>

fun points :: "hit_type \<Rightarrow> int" where
  "points Perfect = 300"
| "points Good = 100"
| "points Bad = 50"
| "points Miss = 0"

definition accuracyOf :: "hit_type list \<Rightarrow> real" where
  "accuracyOf tys =
     (if tys = [] then 101
      else real_of_int (sum_list (map points tys)) / real_of_int (int (length tys) * 300) * 101)"

text \<open>
  The processed notes whose time is less than 40 ms from the clock \<open>t\<close>, and their lanes.
\<close>

definition nearIndices :: "HitObject list \<Rightarrow> real \<Rightarrow> GameStateRef \<Rightarrow> nat list" where
  "nearIndices hs t s =
     filter (\<lambda>i. i \<in> set (processedIndices s) \<and>
        (case time (hs ! i) of NaN \<Rightarrow> False | Num tm \<Rightarrow> \<bar>real_of_int tm - t\<bar> < 40))
       [0..<length hs]"

definition nearLanes :: "HitObject list \<Rightarrow> real \<Rightarrow> GameStateRef \<Rightarrow> number set" where
  "nearLanes hs t s = set (map (\<lambda>i. column (hs ! i)) (nearIndices hs t s))"

text \<open>
  \<open>a.time <= b.time\<close> as JavaScript evaluates it: false when a time is \<open>NaN\<close>.
\<close>

definition timeLe :: "HitObject \<Rightarrow> HitObject \<Rightarrow> bool" where
  "timeLe a b =
     (case time a of NaN \<Rightarrow> False
      | Num ta \<Rightarrow> (case time b of NaN \<Rightarrow> False | Num tb \<Rightarrow> ta \<le> tb))"

text \<open>
  Bit 7 of a note's type, and a line whose type has it set although the line has fewer
  than six comma-separated fields.
\<close>

definition holdFlag :: "number \<Rightarrow> bool" where
  "holdFlag ty = ((toInt32 ty AND 128) > 0)"

definition truncatedHold :: "string \<Rightarrow> bool" where
  "truncatedHold line =
     (holdFlag (parseInt (elemAt (split (CHR '','') line) 3)) \<and>
      length (split (CHR '','') line) < 6)"

text \<open>
  For concrete charts: lines joined by line feeds, and the time, end time and lane of every
  note of a decoded text (\<open>None\<close> when decoding fails).
\<close>

definition joinLines :: "string list \<Rightarrow> string" where
  "joinLines ls = concat (case ls of [] \<Rightarrow> [] | l # rest \<Rightarrow> l # map (\<lambda>x. CHR 0x0A # x) rest)"

definition decodedNotes :: "string \<Rightarrow> (number \<times> number option \<times> number) list option" where
  "decodedNotes text =
     (case parseOsuText text of
        Inl e \<Rightarrow> None
      | Inr d \<Rightarrow> Some (map (\<lambda>h. (time h, endTime h, column h)) (hitObjects d)))"

text \<open>
  The notes a key-down on the lanes \<open>L\<close> at clock \<open>t\<close> can match: in the chart, not
  processed, in one of the lanes, with a time that is a number and less than 160 ms ahead.
\<close>

definition inReach :: "HitObject list \<Rightarrow> GameStateRef \<Rightarrow> real \<Rightarrow> int set \<Rightarrow> nat \<Rightarrow> bool" where
  "inReach hs s t L i =
     (i < length hs \<and> i \<notin> set (processedIndices s) \<and> isNum (time (hs ! i)) \<and>
      timeReal (hs ! i) - t < 160 \<and> (\<exists>col\<in>L. column (hs ! i) = Num col))"

section \<open>Properties of the scoring tracker\<close>

lemma updateStats_fields:
  "score (updateStats hs s) = score s"
  "combo (updateStats hs s) = combo s"
  "maxCombo (updateStats hs s) = maxCombo s"
  "perfect (updateStats hs s) = perfect s"
  "good (updateStats hs s) = good s"
  "bad (updateStats hs s) = bad s"
  "miss (updateStats hs s) = miss s"
  "processedIndices (updateStats hs s) = processedIndices s"
  "holdingIndices (updateStats hs s) = holdingIndices s"
  "geoFlashes (updateStats hs s) = geoFlashes s"
  by (simp_all add: updateStats_def Let_def)

lemma registerHit_Miss:
  "score (registerHit hs Miss s) = score s"
  "combo (registerHit hs Miss s) = 0"
  "maxCombo (registerHit hs Miss s) = maxCombo s"
  "perfect (registerHit hs Miss s) = perfect s"
  "good (registerHit hs Miss s) = good s"
  "bad (registerHit hs Miss s) = bad s"
  "miss (registerHit hs Miss s) = miss s + 1"
  by (simp_all add: registerHit_def updateStats_fields)

lemma registerHit_Perfect:
  "score (registerHit hs Perfect s) = score s + 300"
  "combo (registerHit hs Perfect s) = combo s + 1"
  "maxCombo (registerHit hs Perfect s) = max (maxCombo s) (combo s + 1)"
  "perfect (registerHit hs Perfect s) = perfect s + 1"
  "good (registerHit hs Perfect s) = good s"
  "bad (registerHit hs Perfect s) = bad s"
  "miss (registerHit hs Perfect s) = miss s"
  by (simp_all add: registerHit_def updateStats_fields Let_def)

lemma registerHit_Good:
  "score (registerHit hs Good s) = score s + 100"
  "combo (registerHit hs Good s) = combo s + 1"
  "maxCombo (registerHit hs Good s) = max (maxCombo s) (combo s + 1)"
  "perfect (registerHit hs Good s) = perfect s"
  "good (registerHit hs Good s) = good s + 1"
  "bad (registerHit hs Good s) = bad s"
  "miss (registerHit hs Good s) = miss s"
  by (simp_all add: registerHit_def updateStats_fields Let_def)

lemma registerHit_Bad:
  "score (registerHit hs Bad s) = score s + 50"
  "combo (registerHit hs Bad s) = combo s + 1"
  "maxCombo (registerHit hs Bad s) = max (maxCombo s) (combo s + 1)"
  "perfect (registerHit hs Bad s) = perfect s"
  "good (registerHit hs Bad s) = good s"
  "bad (registerHit hs Bad s) = bad s + 1"
  "miss (registerHit hs Bad s) = miss s"
  by (simp_all add: registerHit_def updateStats_fields Let_def)

lemma registerHit_frame:
  "processedIndices (registerHit hs ty s) = processedIndices s"
  "holdingIndices (registerHit hs ty s) = holdingIndices s"
  "geoFlashes (registerHit hs ty s) = geoFlashes s"
  by (simp_all add: registerHit_def updateStats_fields Let_def)

text \<open>
  Claim C5. \<open>registerHit\<close> folds one judgement into the score state: a Miss sets the
  combo to 0 and adds one to \<open>miss\<close>, leaving the score, \<open>maxCombo\<close> and the other counters
  as they were; a Perfect adds 300 to the score, a Good 100 and a Bad 50, each adding one to
  its own counter and to the combo and leaving the other counters; and after every judgement
  other than a Miss, \<open>maxCombo\<close> is the maximum of its old value and the new combo.
\<close>

theorem registerHit_folds_judgement:
  "(combo (registerHit hs Miss s) = 0 \<and> miss (registerHit hs Miss s) = miss s + 1 \<and>
    score (registerHit hs Miss s) = score s \<and> maxCombo (registerHit hs Miss s) = maxCombo s \<and>
    perfect (registerHit hs Miss s) = perfect s \<and> good (registerHit hs Miss s) = good s \<and>
    bad (registerHit hs Miss s) = bad s) \<and>
   (score (registerHit hs Perfect s) = score s + 300 \<and>
    perfect (registerHit hs Perfect s) = perfect s + 1 \<and>
    combo (registerHit hs Perfect s) = combo s + 1 \<and>
    good (registerHit hs Perfect s) = good s \<and> bad (registerHit hs Perfect s) = bad s \<and>
    miss (registerHit hs Perfect s) = miss s) \<and>
   (score (registerHit hs Good s) = score s + 100 \<and>
    good (registerHit hs Good s) = good s + 1 \<and>
    combo (registerHit hs Good s) = combo s + 1 \<and>
    perfect (registerHit hs Good s) = perfect s \<and> bad (registerHit hs Good s) = bad s \<and>
    miss (registerHit hs Good s) = miss s) \<and>
   (score (registerHit hs Bad s) = score s + 50 \<and>
    bad (registerHit hs Bad s) = bad s + 1 \<and>
    combo (registerHit hs Bad s) = combo s + 1 \<and>
    perfect (registerHit hs Bad s) = perfect s \<and> good (registerHit hs Bad s) = good s \<and>
    miss (registerHit hs Bad s) = miss s) \<and>
   (ty \<noteq> Miss \<longrightarrow>
      maxCombo (registerHit hs ty s) = max (maxCombo s) (combo (registerHit hs ty s)))"
proof -
  have nonMiss: "maxCombo (registerHit hs ty s) = max (maxCombo s) (combo (registerHit hs ty s))"
    if "ty \<noteq> Miss"
    using that by (cases ty) (simp_all add: registerHit_Perfect registerHit_Good registerHit_Bad)
  show ?thesis
    using nonMiss
    by (simp add: registerHit_Miss registerHit_Perfect registerHit_Good registerHit_Bad)
qed

theorem registerHit_folds_judgement_witness:
  "maxCombo (registerHit [] Perfect (initialState\<lparr>combo := 4, maxCombo := 4\<rparr>)) = 5 \<and>
   maxCombo (registerHit [] Bad (initialState\<lparr>combo := 1, maxCombo := 4\<rparr>)) = 4 \<and>
   combo (registerHit [] Miss (initialState\<lparr>combo := 4, maxCombo := 4\<rparr>)) = 0"
  using registerHit_folds_judgement [of "[]" "initialState\<lparr>combo := 4, maxCombo := 4\<rparr>" Perfect]
    registerHit_folds_judgement [of "[]" "initialState\<lparr>combo := 1, maxCombo := 4\<rparr>" Bad]
  by (simp add: initialState_def)

section \<open>Properties of the judging engine\<close>

lemma detectPatterns_fields:
  "score (detectPatterns hs t s) = score s"
  "combo (detectPatterns hs t s) = combo s"
  "maxCombo (detectPatterns hs t s) = maxCombo s"
  "perfect (detectPatterns hs t s) = perfect s"
  "good (detectPatterns hs t s) = good s"
  "bad (detectPatterns hs t s) = bad s"
  "miss (detectPatterns hs t s) = miss s"
  "processedIndices (detectPatterns hs t s) = processedIndices s"
  "holdingIndices (detectPatterns hs t s) = holdingIndices s"
  "currentStats (detectPatterns hs t s) = currentStats s"
  by (simp_all add: detectPatterns_def spawnGeometricFlash_def Let_def)

lemma enumerate_as_map: "enumerate 0 xs = map (\<lambda>i. (i, xs ! i)) [0..<length xs]"
  by (rule nth_equalityI) (simp_all add: nth_enumerate_eq)

lemma map_filter_of_map: "List.map_filter f (map g xs) = List.map_filter (f \<circ> g) xs"
  by (simp add: List.map_filter_def filter_map comp_def)

lemma inputVisibleNotes_as_filter:
  "inputVisibleNotes hs s t col =
     map (\<lambda>i. (i, hs ! i, timeReal (hs ! i) - t))
       (filter (\<lambda>i. isNum (time (hs ! i)) \<and> column (hs ! i) = Num col \<and>
                 i \<notin> set (processedIndices s) \<and> timeReal (hs ! i) - t < HIT_WINDOW_BAD)
          [0..<length hs])"
proof -
  have "(\<lambda>(idx, obj). case time obj of NaN \<Rightarrow> None
          | Num tm \<Rightarrow> if column obj = Num col \<and> idx \<notin> set (processedIndices s) \<and>
                 real_of_int tm - t < HIT_WINDOW_BAD
              then Some (idx, obj, real_of_int tm - t) else None) \<circ> (\<lambda>i. (i, hs ! i))
        = (\<lambda>i. if isNum (time (hs ! i)) \<and> column (hs ! i) = Num col \<and>
                 i \<notin> set (processedIndices s) \<and> timeReal (hs ! i) - t < HIT_WINDOW_BAD
               then Some (i, hs ! i, timeReal (hs ! i) - t) else None)"
    by (rule ext) (simp add: isNum_def timeReal_def split: number.split)
  then show ?thesis
    unfolding inputVisibleNotes_def enumerate_as_map
    by (simp add: map_filter_of_map List.map_filter_map_filter)
qed

lemma loopVisibleNotes_as_filter:
  "loopVisibleNotes hs ns t s =
     map (\<lambda>i. (i, hs ! i, timeReal (hs ! i)))
       (filter (\<lambda>i. \<not> (i \<in> set (processedIndices s) \<and> i \<notin> set (holdingIndices s)) \<and>
                 isNum (time (hs ! i)) \<and> timeReal (hs ! i) \<ge> t - 200 \<and>
                 timeReal (hs ! i) \<le> t + ns * 1000)
          [0..<length hs])"
proof -
  have "(\<lambda>(idx, obj). if idx \<in> set (processedIndices s) \<and> idx \<notin> set (holdingIndices s) then None
          else (case time obj of NaN \<Rightarrow> None
          | Num tm \<Rightarrow> if real_of_int tm \<ge> t - 200 \<and> real_of_int tm \<le> t + ns * 1000
              then Some (idx, obj, real_of_int tm) else None)) \<circ> (\<lambda>i. (i, hs ! i))
        = (\<lambda>i. if \<not> (i \<in> set (processedIndices s) \<and> i \<notin> set (holdingIndices s)) \<and>
                 isNum (time (hs ! i)) \<and> timeReal (hs ! i) \<ge> t - 200 \<and>
                 timeReal (hs ! i) \<le> t + ns * 1000
               then Some (i, hs ! i, timeReal (hs ! i)) else None)"
    by (rule ext) (simp add: isNum_def timeReal_def split: number.split)
  then show ?thesis
    unfolding loopVisibleNotes_def enumerate_as_map
    by (simp add: map_filter_of_map List.map_filter_map_filter)
qed

lemma isNum_time: "isNum (time h) \<Longrightarrow> time h = Num \<lfloor>timeReal h\<rfloor> \<and> timeReal h = real_of_int \<lfloor>timeReal h\<rfloor>"
  by (cases "time h") (simp_all add: isNum_def timeReal_def)

lemma inputVisibleNotes_member:
  assumes "(i, obj, d) \<in> set (inputVisibleNotes hs s t col)"
  shows "i < length hs \<and> obj = hs ! i \<and> i \<notin> set (processedIndices s) \<and>
         (\<exists>tm. time obj = Num tm \<and> d = real_of_int tm - t) \<and> d < HIT_WINDOW_BAD \<and>
         column obj = Num col"
  using assms isNum_time [of "hs ! i"]
  by (auto simp: inputVisibleNotes_as_filter)

lemma laneStep_isCandidate:
  assumes acc: "\<And>b. bestHit = Some b \<Longrightarrow> isCandidate hs s t L b"
    and col: "col \<in> L"
    and res: "laneStep hs s t bestHit col = Some b'"
  shows "isCandidate hs s t L b'"
proof (cases "sort_key (\<lambda>(idx, obj, d). \<bar>d\<bar>) (inputVisibleNotes hs s t col)")
  case Nil
  with res acc show ?thesis by (simp add: laneStep_def)
next
  case (Cons v vs)
  obtain i obj d where v: "v = (i, obj, d)" by (cases v)
  have "v \<in> set (sort_key (\<lambda>(idx, obj, d). \<bar>d\<bar>) (inputVisibleNotes hs s t col))"
    using Cons by simp
  then have mem: "(i, obj, d) \<in> set (inputVisibleNotes hs s t col)"
    using v by simp
  have new: "isCandidate hs s t L \<lparr>bh_note = obj, bh_idx = i, bh_diff = d, bh_absDiff = \<bar>d\<bar>\<rparr>"
    using inputVisibleNotes_member [OF mem] col by (auto simp: isCandidate_def)
  from res Cons v have "b' = \<lparr>bh_note = obj, bh_idx = i, bh_diff = d, bh_absDiff = \<bar>d\<bar>\<rparr> \<or> bestHit = Some b'"
    by (auto simp: laneStep_def Let_def split: if_splits)
  with new acc show ?thesis by auto
qed

lemma foldl_laneStep_isCandidate:
  assumes "\<And>b. acc = Some b \<Longrightarrow> isCandidate hs s t L b"
    and "set lanes \<subseteq> L"
    and "foldl (laneStep hs s t) acc lanes = Some b'"
  shows "isCandidate hs s t L b'"
  using assms
proof (induction lanes arbitrary: acc)
  case Nil
  then show ?case by simp
next
  case (Cons col lanes)
  have step: "\<And>b. laneStep hs s t acc col = Some b \<Longrightarrow> isCandidate hs s t L b"
    using laneStep_isCandidate [of acc hs s t L col] Cons.prems(1,2) by simp
  show ?case
    using Cons.IH [of "laneStep hs s t acc col"] step Cons.prems(2,3) by simp
qed

lemma findBestHit_isCandidate:
  "findBestHit hs s t lanes = Some b \<Longrightarrow> isCandidate hs s t (set lanes) b"
  unfolding findBestHit_def
  by (rule foldl_laneStep_isCandidate [where acc = None and lanes = lanes]) simp_all

lemma findBestHit_None:
  assumes "\<And>col. col \<in> set lanes \<Longrightarrow> inputVisibleNotes hs s t col = []"
  shows "findBestHit hs s t lanes = None"
proof -
  have "foldl (laneStep hs s t) None ls = None" if "set ls \<subseteq> set lanes" for ls
    using that by (induction ls) (simp_all add: laneStep_def assms)
  then show ?thesis by (simp add: findBestHit_def)
qed

lemma set_add_fresh: "a \<notin> set xs \<Longrightarrow> set_add a xs = xs @ [a]"
  by (simp add: set_add_def)

lemma scoreboard_registerHit_cong:
  "scoreboard s1 = scoreboard s2 \<Longrightarrow>
   scoreboard (registerHit hs1 ty s1) = scoreboard (registerHit hs2 ty s2)"
  by (cases ty)
    (simp_all add: scoreboard_def registerHit_Miss registerHit_Perfect registerHit_Good
      registerHit_Bad)

lemma scoreboard_detectPatterns: "scoreboard (detectPatterns hs t s) = scoreboard s"
  by (simp add: scoreboard_def detectPatterns_fields)

lemma resolveHit_effect:
  assumes "bh_idx b \<notin> set (processedIndices s)"
  shows "processedIndices (resolveHit hs b ty s) = processedIndices s @ [bh_idx b]"
    and "scoreboard (resolveHit hs b ty s) = scoreboard (registerHit [] ty s)"
proof -
  show "processedIndices (resolveHit hs b ty s) = processedIndices s @ [bh_idx b]"
    using assms by (simp add: resolveHit_def Let_def registerHit_frame set_add_fresh)
  show "scoreboard (resolveHit hs b ty s) = scoreboard (registerHit [] ty s)"
    unfolding resolveHit_def Let_def
    by (rule scoreboard_registerHit_cong) (simp add: scoreboard_def)
qed

lemma handleInput_down_judged:
  assumes "findBestHit hs s t lanes = Some b"
    and "judge (bh_diff b) (bh_absDiff b) = Some ty"
  shows "resolvedAs ty (bh_idx b) s (handleInput hs lanes True t s)"
proof -
  have fresh: "bh_idx b \<notin> set (processedIndices s)"
    using findBestHit_isCandidate [OF assms(1)] by (simp add: isCandidate_def)
  have "handleInput hs lanes True t s = detectPatterns hs t (resolveHit hs b ty s)"
    using assms by (simp add: handleInput_def)
  then show ?thesis
    using resolveHit_effect [OF fresh, of hs ty]
    by (simp add: resolvedAs_def scoreboard_detectPatterns detectPatterns_fields)
qed

lemma handleInput_down_unjudged:
  assumes "findBestHit hs s t lanes = None \<or>
           (\<exists>b. findBestHit hs s t lanes = Some b \<and> judge (bh_diff b) (bh_absDiff b) = None)"
  shows "unjudged s (handleInput hs lanes True t s)"
proof -
  have "handleInput hs lanes True t s = detectPatterns hs t s"
    using assms by (auto simp: handleInput_def)
  then show ?thesis
    by (simp add: unjudged_def scoreboard_detectPatterns detectPatterns_fields)
qed

lemma judge_cases:
  "\<bar>d\<bar> \<le> 80 \<Longrightarrow> judge d \<bar>d\<bar> = Some Perfect"
  "80 < \<bar>d\<bar> \<Longrightarrow> \<bar>d\<bar> \<le> 120 \<Longrightarrow> judge d \<bar>d\<bar> = Some Good"
  "120 < d \<Longrightarrow> d \<le> 160 \<Longrightarrow> judge d \<bar>d\<bar> = Some Bad"
  "d < - 120 \<Longrightarrow> judge d \<bar>d\<bar> = None"
  "160 < d \<Longrightarrow> judge d \<bar>d\<bar> = None"
  by (simp_all add: judge_def HIT_WINDOW_PERFECT_def HIT_WINDOW_GOOD_def HIT_WINDOW_BAD_def)

lemma hd_sort_key_min:
  assumes "sort_key f xs = y # ys" and "x \<in> set xs"
  shows "f y \<le> f x"
proof -
  have "sorted (map f (y # ys))"
    using sorted_sort_key [of f xs] assms(1) by simp
  moreover have "x \<in> set (y # ys)"
    using assms set_sort [of f xs] by simp
  ultimately show ?thesis by auto
qed

lemma laneStep_nearest:
  assumes acc: "\<And>b i. bestHit = Some b \<Longrightarrow> inReach hs s t L i \<Longrightarrow> bh_absDiff b \<le> \<bar>timeReal (hs ! i) - t\<bar>"
    and none: "bestHit = None \<Longrightarrow> \<forall>i. \<not> inReach hs s t L i"
  shows "(\<forall>b i. laneStep hs s t bestHit col = Some b \<longrightarrow> inReach hs s t (insert col L) i \<longrightarrow>
            bh_absDiff b \<le> \<bar>timeReal (hs ! i) - t\<bar>) \<and>
         (laneStep hs s t bestHit col = None \<longrightarrow> (\<forall>i. \<not> inReach hs s t (insert col L) i))"
proof -
  let ?vis = "inputVisibleNotes hs s t col"
  have mem: "(i, hs ! i, timeReal (hs ! i) - t) \<in> set ?vis"
    if "inReach hs s t {col} i" for i
    using that by (auto simp: inputVisibleNotes_as_filter inReach_def HIT_WINDOW_BAD_def)
  have split: "inReach hs s t (insert col L) i = (inReach hs s t {col} i \<or> inReach hs s t L i)" for i
    by (auto simp: inReach_def)
  show ?thesis
  proof (cases "sort_key (\<lambda>(idx, obj, d). \<bar>d\<bar>) ?vis")
    case Nil
    then have "?vis = []"
      using length_sort [of "\<lambda>(idx, obj, d). \<bar>d\<bar>" ?vis] by simp
    then have nocol: "\<not> inReach hs s t {col} i" for i
      using mem [of i] by auto
    have "laneStep hs s t bestHit col = bestHit"
      using Nil by (simp add: laneStep_def)
    then show ?thesis
      using acc none nocol by (auto simp: split)
  next
    case (Cons v vs)
    obtain j obj d where v: "v = (j, obj, d)" by (cases v)
    have least: "\<bar>d\<bar> \<le> \<bar>timeReal (hs ! i) - t\<bar>" if "inReach hs s t {col} i" for i
      using hd_sort_key_min [OF Cons mem [OF that]] v by simp
    show ?thesis
    proof (cases bestHit)
      case None
      then have "laneStep hs s t bestHit col =
          Some \<lparr>bh_note = obj, bh_idx = j, bh_diff = d, bh_absDiff = \<bar>d\<bar>\<rparr>"
        using Cons v by (simp add: laneStep_def)
      then show ?thesis
        using least none None by (auto simp: split)
    next
      case (Some b0)
      show ?thesis
      proof (cases "\<bar>d\<bar> < bh_absDiff b0")
        case True
        then have "laneStep hs s t bestHit col =
            Some \<lparr>bh_note = obj, bh_idx = j, bh_diff = d, bh_absDiff = \<bar>d\<bar>\<rparr>"
          using Cons v Some by (simp add: laneStep_def)
        then show ?thesis
          using least acc [OF Some] True by (fastforce simp: split)
      next
        case False
        then have "laneStep hs s t bestHit col = Some b0"
          using Cons v Some by (simp add: laneStep_def)
        then show ?thesis
          using least acc [OF Some] False Some by (fastforce simp: split)
      qed
    qed
  qed
qed

lemma foldl_laneStep_nearest:
  assumes "\<And>b i. acc = Some b \<Longrightarrow> inReach hs s t L i \<Longrightarrow> bh_absDiff b \<le> \<bar>timeReal (hs ! i) - t\<bar>"
    and "acc = None \<Longrightarrow> \<forall>i. \<not> inReach hs s t L i"
  shows "(\<forall>b i. foldl (laneStep hs s t) acc lanes = Some b \<longrightarrow> inReach hs s t (L \<union> set lanes) i \<longrightarrow>
            bh_absDiff b \<le> \<bar>timeReal (hs ! i) - t\<bar>) \<and>
         (foldl (laneStep hs s t) acc lanes = None \<longrightarrow> (\<forall>i. \<not> inReach hs s t (L \<union> set lanes) i))"
  using assms
proof (induction lanes arbitrary: acc L)
  case Nil
  then show ?case by auto
next
  case (Cons col lanes)
  have step: "(\<forall>b i. laneStep hs s t acc col = Some b \<longrightarrow> inReach hs s t (insert col L) i \<longrightarrow>
            bh_absDiff b \<le> \<bar>timeReal (hs ! i) - t\<bar>) \<and>
         (laneStep hs s t acc col = None \<longrightarrow> (\<forall>i. \<not> inReach hs s t (insert col L) i))"
    by (rule laneStep_nearest) (use Cons.prems in auto)
  have "(\<forall>b i. foldl (laneStep hs s t) (laneStep hs s t acc col) lanes = Some b \<longrightarrow>
            inReach hs s t (insert col L \<union> set lanes) i \<longrightarrow>
            bh_absDiff b \<le> \<bar>timeReal (hs ! i) - t\<bar>) \<and>
         (foldl (laneStep hs s t) (laneStep hs s t acc col) lanes = None \<longrightarrow>
            (\<forall>i. \<not> inReach hs s t (insert col L \<union> set lanes) i))"
    by (rule Cons.IH) (use step in auto)
  then show ?case by simp
qed

lemma isCandidate_inReach:
  assumes "isCandidate hs s t L b"
  shows "inReach hs s t L (bh_idx b)"
  using assms
  by (auto simp: isCandidate_def inReach_def isNum_def timeReal_def HIT_WINDOW_BAD_def)

lemma findBestHit_None_iff:
  "(findBestHit hs s t lanes = None) = (\<forall>i. \<not> inReach hs s t (set lanes) i)"
proof
  assume none: "findBestHit hs s t lanes = None"
  have "(\<forall>b i. findBestHit hs s t lanes = Some b \<longrightarrow> inReach hs s t ({} \<union> set lanes) i \<longrightarrow>
            bh_absDiff b \<le> \<bar>timeReal (hs ! i) - t\<bar>) \<and>
         (findBestHit hs s t lanes = None \<longrightarrow> (\<forall>i. \<not> inReach hs s t ({} \<union> set lanes) i))"
    unfolding findBestHit_def
    by (rule foldl_laneStep_nearest) (simp_all add: inReach_def)
  with none show "\<forall>i. \<not> inReach hs s t (set lanes) i" by simp
next
  assume none: "\<forall>i. \<not> inReach hs s t (set lanes) i"
  show "findBestHit hs s t lanes = None"
  proof (cases "findBestHit hs s t lanes")
    case None
    then show ?thesis .
  next
    case (Some b)
    then have "inReach hs s t (set lanes) (bh_idx b)"
      using isCandidate_inReach [OF findBestHit_isCandidate] by blast
    with none show ?thesis by blast
  qed
qed

lemma handleInput_down_processed:
  "processedIndices (handleInput hs lanes True t s) = processedIndices s \<or>
   (\<exists>b. findBestHit hs s t lanes = Some b \<and>
      processedIndices (handleInput hs lanes True t s) = processedIndices s @ [bh_idx b])"
proof (cases "findBestHit hs s t lanes")
  case None
  then show ?thesis
    using handleInput_down_unjudged [of hs s t lanes] by (simp add: unjudged_def)
next
  case (Some b)
  show ?thesis
  proof (cases "judge (bh_diff b) (bh_absDiff b)")
    case None
    then show ?thesis
      using handleInput_down_unjudged [of hs s t lanes] Some by (simp add: unjudged_def)
  next
    case (Some ty)
    then show ?thesis
      using handleInput_down_judged [OF \<open>findBestHit hs s t lanes = Some b\<close>, of ty]
      by (simp add: resolvedAs_def \<open>findBestHit hs s t lanes = Some b\<close>)
  qed
qed

text \<open>
  Claim C1. Let a key-down at engine clock \<open>t\<close> select the note \<open>b\<close> (\<open>findBestHit\<close>
  returns it); its \<open>diff\<close> is the note's time minus \<open>t\<close>, and it is below 160, since
  \<open>findBestHit\<close> only looks at such notes. Then \<open>|diff| \<le> 80\<close> registers
  the note as Perfect, \<open>80 < |diff| \<le> 120\<close> as Good and \<open>120 < diff \<le> 160\<close> as Bad,
  adding one to the counter of that grade, and with \<open>diff < -120\<close> (so at \<open>-121\<close>) the
  press judges no note. A press that selects no
  note judges no note, and it selects none exactly when no unprocessed note of the pressed
  lanes is less than 160 ms ahead. Whatever else the chart holds and whatever was processed
  before: when every unprocessed note of the pressed lanes is 160 ms or more ahead (so at
  \<open>170\<close>) or more than 120 ms past, the press judges no note; and a note 160 ms or more
  ahead is never the one a press marks as processed. The witness runs the five values 0,
  81, 150, -121 and 170 of the claim, and 170 again in charts with a processed note, with a
  note long past and with a note that is hit.
\<close>

theorem press_grade_by_diff:
  "(findBestHit hs s t lanes = Some b \<longrightarrow>
      (\<exists>tm. time (hs ! bh_idx b) = Num tm \<and> bh_diff b = real_of_int tm - t) \<and>
      bh_diff b < 160 \<and>
      (\<bar>bh_diff b\<bar> \<le> 80 \<longrightarrow>
         resolvedAs Perfect (bh_idx b) s (handleInput hs lanes True t s) \<and>
         perfect (handleInput hs lanes True t s) = perfect s + 1) \<and>
      (80 < \<bar>bh_diff b\<bar> \<and> \<bar>bh_diff b\<bar> \<le> 120 \<longrightarrow>
         resolvedAs Good (bh_idx b) s (handleInput hs lanes True t s) \<and>
         good (handleInput hs lanes True t s) = good s + 1) \<and>
      (120 < bh_diff b \<and> bh_diff b \<le> 160 \<longrightarrow>
         resolvedAs Bad (bh_idx b) s (handleInput hs lanes True t s) \<and>
         bad (handleInput hs lanes True t s) = bad s + 1) \<and>
      (bh_diff b < - 120 \<longrightarrow> unjudged s (handleInput hs lanes True t s))) \<and>
   (findBestHit hs s t lanes = None \<longrightarrow> unjudged s (handleInput hs lanes True t s)) \<and>
   (findBestHit hs s t lanes = None) = (\<forall>i. \<not> inReach hs s t (set lanes) i) \<and>
   ((\<forall>i tm. i < length hs \<and> i \<notin> set (processedIndices s) \<and>
        (\<exists>col\<in>set lanes. column (hs ! i) = Num col) \<and> time (hs ! i) = Num tm \<longrightarrow>
        160 \<le> real_of_int tm - t \<or> real_of_int tm - t < - 120) \<longrightarrow>
      unjudged s (handleInput hs lanes True t s)) \<and>
   (\<forall>i tm. i < length hs \<and> i \<notin> set (processedIndices s) \<and> time (hs ! i) = Num tm \<and>
        160 \<le> real_of_int tm - t \<longrightarrow>
      i \<notin> set (processedIndices (handleInput hs lanes True t s)))"
proof (intro conjI impI allI)
  assume best: "findBestHit hs s t lanes = Some b"
  have cand: "isCandidate hs s t (set lanes) b"
    by (rule findBestHit_isCandidate [OF best])
  then have abs: "bh_absDiff b = \<bar>bh_diff b\<bar>"
    by (simp add: isCandidate_def)
  show "\<exists>tm. time (hs ! bh_idx b) = Num tm \<and> bh_diff b = real_of_int tm - t"
    using cand by (auto simp: isCandidate_def)
  show "bh_diff b < 160"
    using cand by (simp add: isCandidate_def HIT_WINDOW_BAD_def)
  show p: "resolvedAs Perfect (bh_idx b) s (handleInput hs lanes True t s)" if "\<bar>bh_diff b\<bar> \<le> 80"
    using handleInput_down_judged [OF best, of Perfect] judge_cases(1) [OF that] abs by simp
  show "perfect (handleInput hs lanes True t s) = perfect s + 1" if "\<bar>bh_diff b\<bar> \<le> 80"
    using p [OF that] by (simp add: resolvedAs_def scoreboard_def registerHit_Perfect)
  show g: "resolvedAs Good (bh_idx b) s (handleInput hs lanes True t s)"
    if "80 < \<bar>bh_diff b\<bar> \<and> \<bar>bh_diff b\<bar> \<le> 120"
    using handleInput_down_judged [OF best, of Good] judge_cases(2) [of "bh_diff b"] that abs
    by simp
  show "good (handleInput hs lanes True t s) = good s + 1"
    if "80 < \<bar>bh_diff b\<bar> \<and> \<bar>bh_diff b\<bar> \<le> 120"
    using g [OF that] by (simp add: resolvedAs_def scoreboard_def registerHit_Good)
  show d: "resolvedAs Bad (bh_idx b) s (handleInput hs lanes True t s)"
    if "120 < bh_diff b \<and> bh_diff b \<le> 160"
    using handleInput_down_judged [OF best, of Bad] judge_cases(3) [of "bh_diff b"] that abs
    by simp
  show "bad (handleInput hs lanes True t s) = bad s + 1"
    if "120 < bh_diff b \<and> bh_diff b \<le> 160"
    using d [OF that] by (simp add: resolvedAs_def scoreboard_def registerHit_Bad)
  show "unjudged s (handleInput hs lanes True t s)" if "bh_diff b < - 120"
    using handleInput_down_unjudged [of hs s t lanes] best judge_cases(4) [OF that] abs
    by simp
next
  assume "findBestHit hs s t lanes = None"
  then show "unjudged s (handleInput hs lanes True t s)"
    using handleInput_down_unjudged [of hs s t lanes] by simp
next
  show "(findBestHit hs s t lanes = None) = (\<forall>i. \<not> inReach hs s t (set lanes) i)"
    by (rule findBestHit_None_iff)
next
  assume far: "\<forall>i tm. i < length hs \<and> i \<notin> set (processedIndices s) \<and>
        (\<exists>col\<in>set lanes. column (hs ! i) = Num col) \<and> time (hs ! i) = Num tm \<longrightarrow>
        160 \<le> real_of_int tm - t \<or> real_of_int tm - t < - 120"
  show "unjudged s (handleInput hs lanes True t s)"
  proof (cases "findBestHit hs s t lanes")
    case None
    then show ?thesis
      using handleInput_down_unjudged [of hs s t lanes] by simp
  next
    case (Some c)
    have cand: "isCandidate hs s t (set lanes) c"
      by (rule findBestHit_isCandidate [OF Some])
    then obtain tm where tm: "time (hs ! bh_idx c) = Num tm" "bh_diff c = real_of_int tm - t"
      by (auto simp: isCandidate_def)
    have "160 \<le> real_of_int tm - t \<or> real_of_int tm - t < - 120"
      using far [rule_format, of "bh_idx c" tm] cand tm(1) by (auto simp: isCandidate_def)
    moreover have "bh_diff c < 160"
      using cand by (simp add: isCandidate_def HIT_WINDOW_BAD_def)
    ultimately have "bh_diff c < - 120"
      using tm(2) by simp
    then have "judge (bh_diff c) (bh_absDiff c) = None"
      using judge_cases(4) [of "bh_diff c"] cand by (simp add: isCandidate_def)
    then show ?thesis
      using handleInput_down_unjudged [of hs s t lanes] Some by simp
  qed
next
  fix i tm
  assume ahead: "i < length hs \<and> i \<notin> set (processedIndices s) \<and> time (hs ! i) = Num tm \<and>
        160 \<le> real_of_int tm - t"
  have "bh_idx c \<noteq> i" if "findBestHit hs s t lanes = Some c" for c
    using findBestHit_isCandidate [OF that] ahead
    by (auto simp: isCandidate_def HIT_WINDOW_BAD_def)
  then show "i \<notin> set (processedIndices (handleInput hs lanes True t s))"
    using handleInput_down_processed [of hs lanes t s] ahead by auto
qed

lemmas press_eval =
  findBestHit_def laneStep_def inputVisibleNotes_def tapNote_def initialState_def
  HIT_WINDOW_BAD_def enumerate_eq_zip

theorem press_grade_by_diff_witness:
  "resolvedAs Perfect 0 initialState (handleInput [tapNote 1000 0] [0, 1] True 1000 initialState) \<and>
   resolvedAs Good 0 initialState (handleInput [tapNote 1081 0] [0, 1] True 1000 initialState) \<and>
   resolvedAs Bad 0 initialState (handleInput [tapNote 1150 0] [0, 1] True 1000 initialState) \<and>
   unjudged initialState (handleInput [tapNote 879 0] [0, 1] True 1000 initialState) \<and>
   perfect (handleInput [tapNote 1000 0] [0, 1] True 1000 initialState) = 1 \<and>
   good (handleInput [tapNote 1081 0] [0, 1] True 1000 initialState) = 1 \<and>
   bad (handleInput [tapNote 1150 0] [0, 1] True 1000 initialState) = 1 \<and>
   findBestHit [tapNote 1170 0] initialState 1000 [0, 1] = None \<and>
   unjudged initialState (handleInput [tapNote 1170 0] [0, 1] True 1000 initialState) \<and>
   findBestHit [tapNote 500 0, tapNote 1170 0] (initialState\<lparr>processedIndices := [0]\<rparr>) 1000
     [0, 1] = None \<and>
   unjudged (initialState\<lparr>processedIndices := [0]\<rparr>)
     (handleInput [tapNote 500 0, tapNote 1170 0] [0, 1] True 1000
        (initialState\<lparr>processedIndices := [0]\<rparr>)) \<and>
   unjudged initialState
     (handleInput [tapNote 700 0, tapNote 1170 0] [0, 1] True 1000 initialState) \<and>
   resolvedAs Perfect 0 initialState
     (handleInput [tapNote 1000 0, tapNote 1170 0] [0, 1] True 1000 initialState) \<and>
   1 \<notin> set (processedIndices
     (handleInput [tapNote 1000 0, tapNote 1170 0] [0, 1] True 1000 initialState))"
proof -
  let ?s1 = "initialState\<lparr>processedIndices := [0]\<rparr>"
  have b0: "findBestHit [tapNote 1000 0] initialState 1000 [0, 1] =
      Some \<lparr>bh_note = tapNote 1000 0, bh_idx = 0, bh_diff = 0, bh_absDiff = 0\<rparr>"
    by (simp add: press_eval)
  have b81: "findBestHit [tapNote 1081 0] initialState 1000 [0, 1] =
      Some \<lparr>bh_note = tapNote 1081 0, bh_idx = 0, bh_diff = 81, bh_absDiff = 81\<rparr>"
    by (simp add: press_eval)
  have b150: "findBestHit [tapNote 1150 0] initialState 1000 [0, 1] =
      Some \<lparr>bh_note = tapNote 1150 0, bh_idx = 0, bh_diff = 150, bh_absDiff = 150\<rparr>"
    by (simp add: press_eval)
  have b121: "findBestHit [tapNote 879 0] initialState 1000 [0, 1] =
      Some \<lparr>bh_note = tapNote 879 0, bh_idx = 0, bh_diff = - 121, bh_absDiff = 121\<rparr>"
    by (simp add: press_eval)
  have bmix: "findBestHit [tapNote 1000 0, tapNote 1170 0] initialState 1000 [0, 1] =
      Some \<lparr>bh_note = tapNote 1000 0, bh_idx = 0, bh_diff = 0, bh_absDiff = 0\<rparr>"
    by (simp add: press_eval)
  have r170: "\<forall>i. \<not> inReach [tapNote 1170 0] initialState 1000 (set [0, 1]) i"
    by (auto simp: inReach_def tapNote_def timeReal_def)
  have rmid: "\<forall>i. \<not> inReach [tapNote 500 0, tapNote 1170 0] ?s1 1000 (set [0, 1]) i"
    by (auto simp: inReach_def tapNote_def timeReal_def nth_Cons')
  have far: "\<forall>i tm. i < length [tapNote 700 0, tapNote 1170 0] \<and>
        i \<notin> set (processedIndices initialState) \<and>
        (\<exists>col\<in>set [0, 1]. column ([tapNote 700 0, tapNote 1170 0] ! i) = Num col) \<and>
        time ([tapNote 700 0, tapNote 1170 0] ! i) = Num tm \<longrightarrow>
        160 \<le> real_of_int tm - 1000 \<or> real_of_int tm - 1000 < - 120"
    by (auto simp: tapNote_def nth_Cons')
  have ahead: "1 < length [tapNote 1000 0, tapNote 1170 0] \<and>
        1 \<notin> set (processedIndices initialState) \<and>
        time ([tapNote 1000 0, tapNote 1170 0] ! 1) = Num 1170 \<and>
        160 \<le> real_of_int 1170 - 1000"
    by (simp add: tapNote_def initialState_def)
  have n170: "findBestHit [tapNote 1170 0] initialState 1000 [0, 1] = None"
    using press_grade_by_diff [of "[tapNote 1170 0]" initialState 1000 "[0, 1]",
        THEN conjunct2, THEN conjunct2, THEN conjunct1] r170
    by blast
  have nmid: "findBestHit [tapNote 500 0, tapNote 1170 0] ?s1 1000 [0, 1] = None"
    using press_grade_by_diff [of "[tapNote 500 0, tapNote 1170 0]" ?s1 1000 "[0, 1]",
        THEN conjunct2, THEN conjunct2, THEN conjunct1] rmid
    by blast
  have u170: "unjudged initialState (handleInput [tapNote 1170 0] [0, 1] True 1000 initialState)"
    by (rule press_grade_by_diff [of "[tapNote 1170 0]" initialState 1000 "[0, 1]",
        THEN conjunct2, THEN conjunct1, THEN mp, OF n170])
  have umid: "unjudged ?s1 (handleInput [tapNote 500 0, tapNote 1170 0] [0, 1] True 1000 ?s1)"
    by (rule press_grade_by_diff [of "[tapNote 500 0, tapNote 1170 0]" ?s1 1000 "[0, 1]",
        THEN conjunct2, THEN conjunct1, THEN mp, OF nmid])
  have ufar: "unjudged initialState
     (handleInput [tapNote 700 0, tapNote 1170 0] [0, 1] True 1000 initialState)"
    by (rule press_grade_by_diff [of "[tapNote 700 0, tapNote 1170 0]" initialState 1000 "[0, 1]",
        THEN conjunct2, THEN conjunct2, THEN conjunct2, THEN conjunct1, THEN mp, OF far])
  have kept: "1 \<notin> set (processedIndices
     (handleInput [tapNote 1000 0, tapNote 1170 0] [0, 1] True 1000 initialState))"
    by (rule press_grade_by_diff [of "[tapNote 1000 0, tapNote 1170 0]" initialState 1000 "[0, 1]",
        THEN conjunct2, THEN conjunct2, THEN conjunct2, THEN conjunct2, THEN spec, THEN spec,
        THEN mp, OF ahead])
  have graded:
    "resolvedAs Perfect 0 initialState (handleInput [tapNote 1000 0] [0, 1] True 1000 initialState)"
    "resolvedAs Good 0 initialState (handleInput [tapNote 1081 0] [0, 1] True 1000 initialState)"
    "resolvedAs Bad 0 initialState (handleInput [tapNote 1150 0] [0, 1] True 1000 initialState)"
    "unjudged initialState (handleInput [tapNote 879 0] [0, 1] True 1000 initialState)"
    "resolvedAs Perfect 0 initialState
       (handleInput [tapNote 1000 0, tapNote 1170 0] [0, 1] True 1000 initialState)"
    "perfect (handleInput [tapNote 1000 0] [0, 1] True 1000 initialState) = 1"
    "good (handleInput [tapNote 1081 0] [0, 1] True 1000 initialState) = 1"
    "bad (handleInput [tapNote 1150 0] [0, 1] True 1000 initialState) = 1"
    using press_grade_by_diff [of "[tapNote 1000 0]" initialState 1000 "[0, 1]"
        "\<lparr>bh_note = tapNote 1000 0, bh_idx = 0, bh_diff = 0, bh_absDiff = 0\<rparr>",
        THEN conjunct1, THEN mp, OF b0]
      press_grade_by_diff [of "[tapNote 1081 0]" initialState 1000 "[0, 1]"
        "\<lparr>bh_note = tapNote 1081 0, bh_idx = 0, bh_diff = 81, bh_absDiff = 81\<rparr>",
        THEN conjunct1, THEN mp, OF b81]
      press_grade_by_diff [of "[tapNote 1150 0]" initialState 1000 "[0, 1]"
        "\<lparr>bh_note = tapNote 1150 0, bh_idx = 0, bh_diff = 150, bh_absDiff = 150\<rparr>",
        THEN conjunct1, THEN mp, OF b150]
      press_grade_by_diff [of "[tapNote 879 0]" initialState 1000 "[0, 1]"
        "\<lparr>bh_note = tapNote 879 0, bh_idx = 0, bh_diff = - 121, bh_absDiff = 121\<rparr>",
        THEN conjunct1, THEN mp, OF b121]
      press_grade_by_diff [of "[tapNote 1000 0, tapNote 1170 0]" initialState 1000 "[0, 1]"
        "\<lparr>bh_note = tapNote 1000 0, bh_idx = 0, bh_diff = 0, bh_absDiff = 0\<rparr>",
        THEN conjunct1, THEN mp, OF bmix]
    by (simp_all add: initialState_def)
  from graded(1-4) graded(6-8) n170 u170 nmid umid ufar graded(5) kept show ?thesis
    by (intro conjI)
qed

text \<open>
  A press at clock 1000 on a note at 1150 (150 ms early) is a Bad although the clock has
  not passed the note's time; a press at clock 1000 on a note at 850 (150 ms late) selects
  the note and judges nothing.
\<close>

theorem bad_for_early_press_counterexample:
  "findBestHit [tapNote 1150 0] initialState 1000 [0, 1] =
     Some \<lparr>bh_note = tapNote 1150 0, bh_idx = 0, bh_diff = 150, bh_absDiff = 150\<rparr> \<and>
   resolvedAs Bad 0 initialState (handleInput [tapNote 1150 0] [0, 1] True 1000 initialState) \<and>
   \<not> (1000 > real_of_int 1150) \<and>
   findBestHit [tapNote 850 0] initialState 1000 [0, 1] =
     Some \<lparr>bh_note = tapNote 850 0, bh_idx = 0, bh_diff = - 150, bh_absDiff = 150\<rparr> \<and>
   unjudged initialState (handleInput [tapNote 850 0] [0, 1] True 1000 initialState)"
proof -
  have early: "findBestHit [tapNote 1150 0] initialState 1000 [0, 1] =
      Some \<lparr>bh_note = tapNote 1150 0, bh_idx = 0, bh_diff = 150, bh_absDiff = 150\<rparr>"
    by (simp add: press_eval)
  have late: "findBestHit [tapNote 850 0] initialState 1000 [0, 1] =
      Some \<lparr>bh_note = tapNote 850 0, bh_idx = 0, bh_diff = - 150, bh_absDiff = 150\<rparr>"
    by (simp add: press_eval)
  have "resolvedAs Bad 0 initialState (handleInput [tapNote 1150 0] [0, 1] True 1000 initialState)"
    using handleInput_down_judged [OF early, of Bad] judge_cases(3) [of 150] by simp
  moreover have "unjudged initialState (handleInput [tapNote 850 0] [0, 1] True 1000 initialState)"
    using handleInput_down_unjudged [of "[tapNote 850 0]" initialState 1000 "[0, 1]"] late
      judge_cases(4) [of "- 150"]
    by simp
  ultimately show ?thesis
    using early late by simp
qed

lemma bad_changes_only_by_Bad:
  "bad (registerHit hs ty s) \<noteq> bad s \<Longrightarrow> ty = Bad"
  by (cases ty) (simp_all add: registerHit_Miss registerHit_Perfect registerHit_Good)

lemma judge_Bad_early: "judge d a = Some Bad \<Longrightarrow> 120 < d"
  by (simp add: judge_def HIT_WINDOW_GOOD_def split: if_splits)

text \<open>
  Claim C2, as amended. The claim says a Bad is given only to a late press (the clock
  past the note's time) and never to an early one. The code does the opposite, and the
  counterexample above shows it: a press 150 ms before the note's time is a Bad, and a press
  150 ms after it judges nothing. What holds: whenever a key-down changes the \<open>bad\<close>
  counter, it selected a note whose time is more than 120 ms and less than 160 ms ahead of
  the clock, and registered it as Bad; and a press more than 120 ms after the selected
  note's time judges no note.
\<close>

theorem bad_only_for_early_press:
  "(bad (handleInput hs lanes True t s) \<noteq> bad s \<longrightarrow>
      (\<exists>b tm. findBestHit hs s t lanes = Some b \<and> time (hs ! bh_idx b) = Num tm \<and>
         120 < real_of_int tm - t \<and> real_of_int tm - t < 160 \<and>
         resolvedAs Bad (bh_idx b) s (handleInput hs lanes True t s))) \<and>
   (findBestHit hs s t lanes = Some b \<and> time (hs ! bh_idx b) = Num tm \<and>
    120 < t - real_of_int tm \<longrightarrow> unjudged s (handleInput hs lanes True t s))"
proof (intro conjI impI)
  assume changed: "bad (handleInput hs lanes True t s) \<noteq> bad s"
  show "\<exists>b tm. findBestHit hs s t lanes = Some b \<and> time (hs ! bh_idx b) = Num tm \<and>
         120 < real_of_int tm - t \<and> real_of_int tm - t < 160 \<and>
         resolvedAs Bad (bh_idx b) s (handleInput hs lanes True t s)"
  proof (cases "findBestHit hs s t lanes")
    case None
    then have "unjudged s (handleInput hs lanes True t s)"
      using handleInput_down_unjudged [of hs s t lanes] by simp
    with changed show ?thesis by (simp add: unjudged_def scoreboard_def)
  next
    case (Some b)
    have cand: "isCandidate hs s t (set lanes) b"
      by (rule findBestHit_isCandidate [OF Some])
    show ?thesis
    proof (cases "judge (bh_diff b) (bh_absDiff b)")
      case None
      then have "unjudged s (handleInput hs lanes True t s)"
        using handleInput_down_unjudged [of hs s t lanes] Some by simp
      with changed show ?thesis by (simp add: unjudged_def scoreboard_def)
    next
      case (Some ty)
      have res: "resolvedAs ty (bh_idx b) s (handleInput hs lanes True t s)"
        by (rule handleInput_down_judged [OF \<open>findBestHit hs s t lanes = Some b\<close> Some])
      then have "bad (handleInput hs lanes True t s) = bad (registerHit [] ty s)"
        by (simp add: resolvedAs_def scoreboard_def)
      with changed have ty: "ty = Bad"
        using bad_changes_only_by_Bad [of "[]" ty s] by simp
      have "120 < bh_diff b"
        using Some ty judge_Bad_early by simp
      with cand res ty \<open>findBestHit hs s t lanes = Some b\<close> show ?thesis
        by (auto simp: isCandidate_def HIT_WINDOW_BAD_def)
    qed
  qed
next
  assume late: "findBestHit hs s t lanes = Some b \<and> time (hs ! bh_idx b) = Num tm \<and>
    120 < t - real_of_int tm"
  then have cand: "isCandidate hs s t (set lanes) b"
    using findBestHit_isCandidate by blast
  with late have "bh_diff b < - 120" and "bh_absDiff b = \<bar>bh_diff b\<bar>"
    by (auto simp: isCandidate_def)
  then have "judge (bh_diff b) (bh_absDiff b) = None"
    using judge_cases(4) [of "bh_diff b"] by simp
  with late show "unjudged s (handleInput hs lanes True t s)"
    using handleInput_down_unjudged [of hs s t lanes] by simp
qed

theorem bad_only_for_early_press_witness:
  "bad (handleInput [tapNote 1150 0] [0, 1] True 1000 initialState) \<noteq> bad initialState \<and>
   (\<exists>b tm. findBestHit [tapNote 1150 0] initialState 1000 [0, 1] = Some b \<and>
      time ([tapNote 1150 0] ! bh_idx b) = Num tm \<and>
      120 < real_of_int tm - 1000 \<and> real_of_int tm - 1000 < 160 \<and>
      resolvedAs Bad (bh_idx b) initialState
        (handleInput [tapNote 1150 0] [0, 1] True 1000 initialState)) \<and>
   unjudged initialState (handleInput [tapNote 850 0] [0, 1] True 1000 initialState)"
proof -
  have early: "findBestHit [tapNote 1150 0] initialState 1000 [0, 1] =
      Some \<lparr>bh_note = tapNote 1150 0, bh_idx = 0, bh_diff = 150, bh_absDiff = 150\<rparr>"
    by (simp add: press_eval)
  have "resolvedAs Bad 0 initialState (handleInput [tapNote 1150 0] [0, 1] True 1000 initialState)"
    using handleInput_down_judged [OF early, of Bad] judge_cases(3) [of 150] by simp
  then have changed: "bad (handleInput [tapNote 1150 0] [0, 1] True 1000 initialState) \<noteq> bad initialState"
    by (simp add: resolvedAs_def scoreboard_def registerHit_Bad)
  have late: "findBestHit [tapNote 850 0] initialState 1000 [0, 1] =
      Some \<lparr>bh_note = tapNote 850 0, bh_idx = 0, bh_diff = - 150, bh_absDiff = 150\<rparr>"
    by (simp add: press_eval)
  have tm: "time ([tapNote 850 0] ! 0) = Num 850"
    by (simp add: tapNote_def)
  show ?thesis
    using changed
      bad_only_for_early_press [of "[tapNote 1150 0]" "[0, 1]" 1000 initialState]
      bad_only_for_early_press [of "[tapNote 850 0]" "[0, 1]" 1000 initialState
        "\<lparr>bh_note = tapNote 850 0, bh_idx = 0, bh_diff = - 150, bh_absDiff = 150\<rparr>" 850]
      late tm
    by simp
qed

lemma processedIndices_missOne: "processedIndices (missOne hs s i) = processedIndices s @ [i]"
  by (simp add: missOne_def registerHit_frame)

lemma noteStep_triple:
  "noteStep hs ns t s (i, hs ! i, timeReal (hs ! i)) =
     (if missable hs ns t s i then missOne hs s i else s)"
  by (auto simp: noteStep_def missable_def missOne_def Let_def set_add_fresh)

lemma foldl_noteStep:
  assumes "distinct is"
  shows "foldl (noteStep hs ns t) s (map (\<lambda>i. (i, hs ! i, timeReal (hs ! i))) is) =
         foldl (missOne hs) s (filter (missable hs ns t s) is)"
  using assms
proof (induction "is" arbitrary: s)
  case Nil
  then show ?case by simp
next
  case (Cons i "is")
  show ?case
  proof (cases "missable hs ns t s i")
    case True
    have same: "filter (missable hs ns t (missOne hs s i)) is = filter (missable hs ns t s) is"
      using Cons.prems
      by (intro filter_cong) (auto simp: missable_def processedIndices_missOne)
    show ?thesis
      using True Cons.IH [of "missOne hs s i"] Cons.prems same
      by (simp add: noteStep_triple)
  next
    case False
    then show ?thesis
      using Cons.IH [of s] Cons.prems by (simp add: noteStep_triple)
  qed
qed

lemma foldl_missOne:
  "processedIndices (foldl (missOne hs) s js) = processedIndices s @ js"
  "miss (foldl (missOne hs) s js) = miss s + int (length js)"
  "combo (foldl (missOne hs) s js) = (if js = [] then combo s else 0)"
  "score (foldl (missOne hs) s js) = score s"
  "maxCombo (foldl (missOne hs) s js) = maxCombo s"
  "perfect (foldl (missOne hs) s js) = perfect s"
  "good (foldl (missOne hs) s js) = good s"
  "bad (foldl (missOne hs) s js) = bad s"
  "holdingIndices (foldl (missOne hs) s js) = holdingIndices s"
  "geoFlashes (foldl (missOne hs) s js) = geoFlashes s"
  by (induction js rule: rev_induct)
    (simp_all add: missOne_def registerHit_frame registerHit_Miss)

lemma gameLoop_as_misses:
  "gameLoop hs ns t s =
     foldl (missOne hs) s
       (filter (\<lambda>i. (\<not> (i \<in> set (processedIndices s) \<and> i \<notin> set (holdingIndices s)) \<and>
                 isNum (time (hs ! i)) \<and> timeReal (hs ! i) \<ge> t - 200 \<and>
                 timeReal (hs ! i) \<le> t + ns * 1000) \<and> missable hs ns t s i)
          [0..<length hs])"
  unfolding gameLoop_def loopVisibleNotes_as_filter
  by (subst foldl_noteStep) (simp_all add: conj_commute)

lemma progress_of_past_note:
  assumes "0 \<le> ns" and "d < 0"
  shows "\<not> progressNegative d ns"
proof (cases "ns * 1000 = 0")
  case True
  with assms show ?thesis by (simp add: progressNegative_def)
next
  case False
  with assms have "0 < ns * 1000" by simp
  then have "d / (ns * 1000) < 0"
    using assms(2) by (simp add: divide_neg_pos)
  then show ?thesis
    using False by (simp add: progressNegative_def)
qed

lemma due_filter:
  assumes "0 \<le> ns"
  shows "filter (\<lambda>i. (\<not> (i \<in> set (processedIndices s) \<and> i \<notin> set (holdingIndices s)) \<and>
                 isNum (time (hs ! i)) \<and> timeReal (hs ! i) \<ge> t - 200 \<and>
                 timeReal (hs ! i) \<le> t + ns * 1000) \<and> missable hs ns t s i)
          [0..<length hs] = dueNotes hs t s"
  unfolding dueNotes_def
proof (rule filter_cong [OF refl])
  fix i
  have ns: "0 \<le> ns * 1000" using assms by simp
  show "((\<not> (i \<in> set (processedIndices s) \<and> i \<notin> set (holdingIndices s)) \<and>
          isNum (time (hs ! i)) \<and> timeReal (hs ! i) \<ge> t - 200 \<and>
          timeReal (hs ! i) \<le> t + ns * 1000) \<and> missable hs ns t s i) =
        (i \<notin> set (processedIndices s) \<and>
          (case time (hs ! i) of NaN \<Rightarrow> False
           | Num tm \<Rightarrow> 160 < t - real_of_int tm \<and> t - real_of_int tm \<le> 200))"
  proof (cases "time (hs ! i)")
    case NaN
    then show ?thesis by (simp add: isNum_def)
  next
    case (Num tm)
    then have tr: "timeReal (hs ! i) = real_of_int tm" and num: "isNum (time (hs ! i))"
      by (simp_all add: timeReal_def isNum_def)
    have "\<not> progressNegative (real_of_int tm - t) ns" if "160 < t - real_of_int tm"
      using progress_of_past_note [OF assms, of "real_of_int tm - t"] that by simp
    then show ?thesis
      using Num tr num ns by (auto simp: missable_def HIT_WINDOW_BAD_def)
  qed
qed

lemma gameLoop_misses_due:
  "0 \<le> ns \<Longrightarrow> gameLoop hs ns t s = foldl (missOne hs) s (dueNotes hs t s)"
  by (simp only: gameLoop_as_misses due_filter)

text \<open>
  What one frame at clock \<open>t\<close> does, with a note speed that is not negative: it marks as
  processed, in chart order, exactly the unprocessed notes whose time is more than 160 ms
  and at most 200 ms past, and registers one miss for each: \<open>miss\<close> grows by their number,
  the combo is 0 if there is at least one and unchanged otherwise, and the score,
  \<open>maxCombo\<close> and the other counters stay. A note missed by this frame is not due at any
  later frame. The test of line 701 has no lower bound; the bound of 200 ms is the cull
  of \<open>visibleNotes\<close> (lines 689 to 693), the only notes the scan walks.
\<close>

lemma gameLoop_frame_effect:
  "0 \<le> noteSpeed \<longrightarrow>
     processedIndices (gameLoop hs noteSpeed t s) = processedIndices s @ dueNotes hs t s \<and>
     miss (gameLoop hs noteSpeed t s) = miss s + int (length (dueNotes hs t s)) \<and>
     combo (gameLoop hs noteSpeed t s) = (if dueNotes hs t s = [] then combo s else 0) \<and>
     score (gameLoop hs noteSpeed t s) = score s \<and>
     maxCombo (gameLoop hs noteSpeed t s) = maxCombo s \<and>
     perfect (gameLoop hs noteSpeed t s) = perfect s \<and>
     good (gameLoop hs noteSpeed t s) = good s \<and>
     bad (gameLoop hs noteSpeed t s) = bad s \<and>
     set (dueNotes hs t' (gameLoop hs noteSpeed t s)) \<inter> set (dueNotes hs t s) = {}"
proof
  assume ns: "0 \<le> noteSpeed"
  have loop: "gameLoop hs noteSpeed t s = foldl (missOne hs) s (dueNotes hs t s)"
    by (rule gameLoop_misses_due [OF ns])
  have once: "set (dueNotes hs t' (gameLoop hs noteSpeed t s)) \<inter> set (dueNotes hs t s) = {}"
    unfolding loop by (auto simp: dueNotes_def [of hs t'] foldl_missOne)
  show "processedIndices (gameLoop hs noteSpeed t s) = processedIndices s @ dueNotes hs t s \<and>
     miss (gameLoop hs noteSpeed t s) = miss s + int (length (dueNotes hs t s)) \<and>
     combo (gameLoop hs noteSpeed t s) = (if dueNotes hs t s = [] then combo s else 0) \<and>
     score (gameLoop hs noteSpeed t s) = score s \<and>
     maxCombo (gameLoop hs noteSpeed t s) = maxCombo s \<and>
     perfect (gameLoop hs noteSpeed t s) = perfect s \<and>
     good (gameLoop hs noteSpeed t s) = good s \<and>
     bad (gameLoop hs noteSpeed t s) = bad s \<and>
     set (dueNotes hs t' (gameLoop hs noteSpeed t s)) \<inter> set (dueNotes hs t s) = {}"
    using once by (simp add: loop foldl_missOne)
qed

text \<open>
  Claim C3. The claim asks that at every tick every pending note more than 160 ms past its
  time is missed, once, with the combo reset. The code does this only for a note that a
  frame finds more than 160 ms and at most 200 ms past. Chart: one tap note at time 1000 in
  lane 0, and a tap note at 500 before it that is hit on time; note speed 0.8. The frames
  at clocks 1159 and 1201 are 42 ms apart. At 1159 the note is 159 ms past: not missed
  yet. At 1201 it is 201 ms past, more than 160, and pending: the claim wants it missed,
  but the frame does not look at it, nor does any later frame (1300, 60000). The note is
  never missed or counted, and the combo of the earlier hit stays. With a frame at 1180 in
  between, the same note is missed and the combo is reset.
\<close>

theorem late_note_escapes_miss:
  "processedIndices (run [tapNote 500 0, tapNote 1000 0] False (4 / 5)
      [KeyDown ''KeyJ'' False 500, Frame 1159]) = [0] \<and>
   160 < 1201 - real_of_int 1000 \<and>
   processedIndices (run [tapNote 500 0, tapNote 1000 0] False (4 / 5)
      [KeyDown ''KeyJ'' False 500, Frame 1159, Frame 1201]) = [0] \<and>
   miss (run [tapNote 500 0, tapNote 1000 0] False (4 / 5)
      [KeyDown ''KeyJ'' False 500, Frame 1159, Frame 1201]) = 0 \<and>
   combo (run [tapNote 500 0, tapNote 1000 0] False (4 / 5)
      [KeyDown ''KeyJ'' False 500, Frame 1159, Frame 1201]) = 1 \<and>
   processedIndices (run [tapNote 500 0, tapNote 1000 0] False (4 / 5)
      [KeyDown ''KeyJ'' False 500, Frame 1159, Frame 1201, Frame 1300, Frame 60000]) = [0] \<and>
   miss (run [tapNote 500 0, tapNote 1000 0] False (4 / 5)
      [KeyDown ''KeyJ'' False 500, Frame 1159, Frame 1201, Frame 1300, Frame 60000]) = 0 \<and>
   combo (run [tapNote 500 0, tapNote 1000 0] False (4 / 5)
      [KeyDown ''KeyJ'' False 500, Frame 1159, Frame 1201, Frame 1300, Frame 60000]) = 1 \<and>
   processedIndices (run [tapNote 500 0, tapNote 1000 0] False (4 / 5)
      [KeyDown ''KeyJ'' False 500, Frame 1159, Frame 1180, Frame 1201]) = [0, 1] \<and>
   miss (run [tapNote 500 0, tapNote 1000 0] False (4 / 5)
      [KeyDown ''KeyJ'' False 500, Frame 1159, Frame 1180, Frame 1201]) = 1 \<and>
   combo (run [tapNote 500 0, tapNote 1000 0] False (4 / 5)
      [KeyDown ''KeyJ'' False 500, Frame 1159, Frame 1180, Frame 1201]) = 0"
proof -
  have a: "processedIndices (run [tapNote 500 0, tapNote 1000 0] False (4 / 5)
      [KeyDown ''KeyJ'' False 500, Frame 1159]) = [0]"
    by code_simp
  have b: "processedIndices (run [tapNote 500 0, tapNote 1000 0] False (4 / 5)
      [KeyDown ''KeyJ'' False 500, Frame 1159, Frame 1201]) = [0]"
    "miss (run [tapNote 500 0, tapNote 1000 0] False (4 / 5)
      [KeyDown ''KeyJ'' False 500, Frame 1159, Frame 1201]) = 0"
    "combo (run [tapNote 500 0, tapNote 1000 0] False (4 / 5)
      [KeyDown ''KeyJ'' False 500, Frame 1159, Frame 1201]) = 1"
    by code_simp+
  have c: "processedIndices (run [tapNote 500 0, tapNote 1000 0] False (4 / 5)
      [KeyDown ''KeyJ'' False 500, Frame 1159, Frame 1201, Frame 1300, Frame 60000]) = [0]"
    "miss (run [tapNote 500 0, tapNote 1000 0] False (4 / 5)
      [KeyDown ''KeyJ'' False 500, Frame 1159, Frame 1201, Frame 1300, Frame 60000]) = 0"
    "combo (run [tapNote 500 0, tapNote 1000 0] False (4 / 5)
      [KeyDown ''KeyJ'' False 500, Frame 1159, Frame 1201, Frame 1300, Frame 60000]) = 1"
    by code_simp+
  have d: "processedIndices (run [tapNote 500 0, tapNote 1000 0] False (4 / 5)
      [KeyDown ''KeyJ'' False 500, Frame 1159, Frame 1180, Frame 1201]) = [0, 1]"
    "miss (run [tapNote 500 0, tapNote 1000 0] False (4 / 5)
      [KeyDown ''KeyJ'' False 500, Frame 1159, Frame 1180, Frame 1201]) = 1"
    "combo (run [tapNote 500 0, tapNote 1000 0] False (4 / 5)
      [KeyDown ''KeyJ'' False 500, Frame 1159, Frame 1180, Frame 1201]) = 0"
    by code_simp+
  have e: "160 < 1201 - real_of_int 1000"
    by simp
  from a e b c d show ?thesis
    by (intro conjI)
qed

lemma currentStats_registerHit_cong:
  "scoreboard s1 = scoreboard s2 \<Longrightarrow>
   currentStats (registerHit hs ty s1) = currentStats (registerHit hs ty s2)"
  by (cases ty) (simp_all add: scoreboard_def registerHit_def updateStats_def Let_def)

lemma core_applyJudgement_cong:
  "core s1 = core s2 \<Longrightarrow> core (applyJudgement hs s1 j) = core (applyJudgement hs s2 j)"
  unfolding core_def applyJudgement_def
  using scoreboard_registerHit_cong [of "s1\<lparr>processedIndices := processedIndices s1 @ [fst j]\<rparr>"
      "s2\<lparr>processedIndices := processedIndices s2 @ [fst j]\<rparr>" hs "snd j" hs]
    currentStats_registerHit_cong [of "s1\<lparr>processedIndices := processedIndices s1 @ [fst j]\<rparr>"
      "s2\<lparr>processedIndices := processedIndices s2 @ [fst j]\<rparr>" hs "snd j"]
  by (simp add: registerHit_frame scoreboard_def)

lemma core_foldl_applyJudgement_cong:
  "core s1 = core s2 \<Longrightarrow>
   core (foldl (applyJudgement hs) s1 js) = core (foldl (applyJudgement hs) s2 js)"
proof (induction js arbitrary: s1 s2)
  case Nil
  then show ?case by simp
next
  case (Cons j js)
  have "core (applyJudgement hs s1 j) = core (applyJudgement hs s2 j)"
    by (rule core_applyJudgement_cong [OF Cons.prems])
  then show ?case
    using Cons.IH [of "applyJudgement hs s1 j" "applyJudgement hs s2 j"] by simp
qed

lemma core_detectPatterns: "core (detectPatterns hs t s) = core s"
  by (simp add: core_def scoreboard_detectPatterns detectPatterns_fields)

lemma core_resolveHit:
  assumes "bh_idx b \<notin> set (processedIndices s)"
  shows "core (resolveHit hs b ty s) = core (applyJudgement hs s (bh_idx b, ty))"
proof -
  have p: "processedIndices (resolveHit hs b ty s) =
      processedIndices (applyJudgement hs s (bh_idx b, ty))"
    using resolveHit_effect(1) [OF assms] by (simp add: applyJudgement_def registerHit_frame)
  have sb: "scoreboard (resolveHit hs b ty s) = scoreboard (applyJudgement hs s (bh_idx b, ty))"
    unfolding resolveHit_def applyJudgement_def Let_def snd_conv
    by (rule scoreboard_registerHit_cong) (simp add: scoreboard_def)
  have cs: "currentStats (resolveHit hs b ty s) =
      currentStats (applyJudgement hs s (bh_idx b, ty))"
    unfolding resolveHit_def applyJudgement_def Let_def snd_conv
    by (rule currentStats_registerHit_cong) (simp add: scoreboard_def)
  show ?thesis
    unfolding core_def using p sb cs by simp
qed

lemma core_handleInput_down:
  "core (handleInput hs lanes True t s) =
   core (foldl (applyJudgement hs) s (pressJudgement hs lanes t s))"
proof (cases "findBestHit hs s t lanes")
  case None
  then show ?thesis
    by (simp add: handleInput_def pressJudgement_def core_detectPatterns)
next
  case (Some b)
  have fresh: "bh_idx b \<notin> set (processedIndices s)"
    using findBestHit_isCandidate [OF Some] by (simp add: isCandidate_def)
  show ?thesis
  proof (cases "judge (bh_diff b) (bh_absDiff b)")
    case None
    with Some show ?thesis
      by (simp add: handleInput_def pressJudgement_def core_detectPatterns)
  next
    case (Some ty)
    with \<open>findBestHit hs s t lanes = Some b\<close> show ?thesis
      by (simp add: handleInput_def pressJudgement_def core_detectPatterns
          core_resolveHit [OF fresh])
  qed
qed

lemma core_releaseLane: "core (releaseLane hs s col) = core s"
  by (simp add: releaseLane_def core_def scoreboard_def split: option.split)

lemma core_handleInput_up: "core (handleInput hs lanes False t s) = core s"
proof -
  have "core (foldl (releaseLane hs) s ls) = core s" for ls
    by (induction ls arbitrary: s) (simp_all add: core_releaseLane)
  then show ?thesis by (simp add: handleInput_def)
qed

lemma frameJudgements_as_filter:
  "frameJudgements hs ns t s =
     map (\<lambda>i. (i, Miss))
       (filter (\<lambda>i. (\<not> (i \<in> set (processedIndices s) \<and> i \<notin> set (holdingIndices s)) \<and>
                 isNum (time (hs ! i)) \<and> timeReal (hs ! i) \<ge> t - 200 \<and>
                 timeReal (hs ! i) \<le> t + ns * 1000) \<and> missable hs ns t s i)
          [0..<length hs])"
  unfolding frameJudgements_def loopVisibleNotes_as_filter
  by (simp add: filter_map comp_def missable_def conj_commute)

lemma foldl_missOne_applyJudgement:
  "foldl (missOne hs) s js = foldl (applyJudgement hs) s (map (\<lambda>i. (i, Miss)) js)"
  by (induction js arbitrary: s) (simp_all add: missOne_def applyJudgement_def)

lemma gameLoop_applies_judgements:
  "gameLoop hs ns t s = foldl (applyJudgement hs) s (frameJudgements hs ns t s)"
  by (simp only: gameLoop_as_misses frameJudgements_as_filter foldl_missOne_applyJudgement)

lemma core_step:
  "core (step hs ap ns s e) = core (foldl (applyJudgement hs) s (stepJudgements hs ap ns s e))"
proof (cases e)
  case (KeyDown code repeat t)
  then show ?thesis
    by (simp add: handleKeyDown_def core_handleInput_down split: option.split)
next
  case (KeyUp code t)
  then show ?thesis
    by (simp add: handleKeyUp_def core_handleInput_up split: option.split)
next
  case (Frame t)
  then show ?thesis
    by (simp add: gameLoop_applies_judgements)
qed

lemma core_run:
  "core (foldl (step hs ap ns) s evs) =
   core (foldl (applyJudgement hs) s (judgements hs ap ns s evs))"
proof (induction evs arbitrary: s)
  case Nil
  then show ?case by simp
next
  case (Cons e es)
  have "core (foldl (step hs ap ns) (step hs ap ns s e) es) =
        core (foldl (applyJudgement hs) (step hs ap ns s e)
               (judgements hs ap ns (step hs ap ns s e) es))"
    by (rule Cons.IH)
  also have "\<dots> = core (foldl (applyJudgement hs)
        (foldl (applyJudgement hs) s (stepJudgements hs ap ns s e))
        (judgements hs ap ns (step hs ap ns s e) es))"
    by (rule core_foldl_applyJudgement_cong [OF core_step])
  finally show ?case by simp
qed

lemma processedIndices_foldl_applyJudgement:
  "processedIndices (foldl (applyJudgement hs) s js) = processedIndices s @ map fst js"
  by (induction js arbitrary: s) (simp_all add: applyJudgement_def registerHit_frame)

lemma applyJudgement_counters:
  "perfect (applyJudgement hs s j) = perfect s + (if snd j = Perfect then 1 else 0)"
  "good (applyJudgement hs s j) = good s + (if snd j = Good then 1 else 0)"
  "bad (applyJudgement hs s j) = bad s + (if snd j = Bad then 1 else 0)"
  "miss (applyJudgement hs s j) = miss s + (if snd j = Miss then 1 else 0)"
  "score (applyJudgement hs s j) = score s + points (snd j)"
  by (cases "snd j";
      simp add: applyJudgement_def registerHit_Miss registerHit_Perfect registerHit_Good
        registerHit_Bad; fail)+

lemma applyJudgement_combo:
  "maxCombo s \<le> maxCombo (applyJudgement hs s j)"
  "0 \<le> combo s \<Longrightarrow> 0 \<le> combo (applyJudgement hs s j)"
  "0 \<le> combo s \<Longrightarrow> combo s \<le> maxCombo s \<Longrightarrow>
   combo (applyJudgement hs s j) \<le> maxCombo (applyJudgement hs s j)"
proof -
  show "maxCombo s \<le> maxCombo (applyJudgement hs s j)"
    by (cases "snd j")
      (simp_all add: applyJudgement_def registerHit_Miss registerHit_Perfect registerHit_Good
        registerHit_Bad)
  show "0 \<le> combo (applyJudgement hs s j)" if "0 \<le> combo s"
    using that
    by (cases "snd j")
      (simp_all add: applyJudgement_def registerHit_Miss registerHit_Perfect registerHit_Good
        registerHit_Bad)
  show "combo (applyJudgement hs s j) \<le> maxCombo (applyJudgement hs s j)"
    if "0 \<le> combo s" and "combo s \<le> maxCombo s"
    using that
    by (cases "snd j")
      (simp_all add: applyJudgement_def registerHit_Miss registerHit_Perfect registerHit_Good
        registerHit_Bad)
qed

lemma foldl_applyJudgement_counters:
  "perfect (foldl (applyJudgement hs) s js) = perfect s + int (count_list (map snd js) Perfect)"
  "good (foldl (applyJudgement hs) s js) = good s + int (count_list (map snd js) Good)"
  "bad (foldl (applyJudgement hs) s js) = bad s + int (count_list (map snd js) Bad)"
  "miss (foldl (applyJudgement hs) s js) = miss s + int (count_list (map snd js) Miss)"
  "score (foldl (applyJudgement hs) s js) = score s + sum_list (map points (map snd js))"
  by (induction js arbitrary: s) (simp_all add: applyJudgement_counters)

lemma foldl_applyJudgement_combo:
  "maxCombo s \<le> maxCombo (foldl (applyJudgement hs) s js)"
  "0 \<le> combo s \<and> combo s \<le> maxCombo s \<Longrightarrow>
   0 \<le> combo (foldl (applyJudgement hs) s js) \<and>
   combo (foldl (applyJudgement hs) s js) \<le> maxCombo (foldl (applyJudgement hs) s js)"
proof -
  show "maxCombo s \<le> maxCombo (foldl (applyJudgement hs) s js)"
  proof (induction js arbitrary: s)
    case Nil
    then show ?case by simp
  next
    case (Cons j js)
    show ?case
      using Cons.IH [of "applyJudgement hs s j"] applyJudgement_combo(1) [of s hs j] by simp
  qed
  show "0 \<le> combo (foldl (applyJudgement hs) s js) \<and>
   combo (foldl (applyJudgement hs) s js) \<le> maxCombo (foldl (applyJudgement hs) s js)"
    if "0 \<le> combo s \<and> combo s \<le> maxCombo s"
    using that
  proof (induction js arbitrary: s)
    case Nil
    then show ?case by simp
  next
    case (Cons j js)
    show ?case
      using Cons.IH [of "applyJudgement hs s j"] Cons.prems applyJudgement_combo(2,3) [of s hs j]
      by simp
  qed
qed

lemma points_nonneg: "0 \<le> sum_list (map points tys)"
proof (induction tys)
  case Nil
  then show ?case by simp
next
  case (Cons ty tys)
  then show ?case by (cases ty) simp_all
qed

lemma count_by_type:
  "int (length tys) = int (count_list tys Perfect) + int (count_list tys Good) +
     int (count_list tys Bad) + int (count_list tys Miss)"
  "sum_list (map points tys) = int (count_list tys Perfect) * 300 +
     int (count_list tys Good) * 100 + int (count_list tys Bad) * 50"
proof (induction tys)
  case Nil
  {
    case 1
    then show ?case by simp
  next
    case 2
    then show ?case by simp
  }
next
  case (Cons ty tys)
  {
    case 1
    then show ?case using Cons(1) by (cases ty) simp_all
  next
    case 2
    then show ?case using Cons(2) by (cases ty) simp_all
  }
qed

lemma pressJudgement_fresh:
  assumes "j \<in> set (pressJudgement hs lanes t s)"
  shows "fst j \<notin> set (processedIndices s) \<and> fst j < length hs"
proof (cases "findBestHit hs s t lanes")
  case None
  with assms show ?thesis by (simp add: pressJudgement_def)
next
  case (Some b)
  have "isCandidate hs s t (set lanes) b"
    by (rule findBestHit_isCandidate [OF Some])
  with assms Some show ?thesis
    by (auto simp: pressJudgement_def isCandidate_def split: option.splits)
qed

lemma pressJudgement_distinct: "distinct (map fst (pressJudgement hs lanes t s))"
  by (simp add: pressJudgement_def split: option.split)

lemma frameJudgements_fresh:
  assumes "j \<in> set (frameJudgements hs ns t s)"
  shows "fst j \<notin> set (processedIndices s) \<and> fst j < length hs"
  using assms by (auto simp: frameJudgements_as_filter missable_def)

lemma frameJudgements_distinct: "distinct (map fst (frameJudgements hs ns t s))"
  by (simp add: frameJudgements_as_filter comp_def)

lemma stepJudgements_fresh:
  assumes "j \<in> set (stepJudgements hs ap ns s e)"
  shows "fst j \<notin> set (processedIndices s) \<and> fst j < length hs"
proof (cases e)
  case (KeyDown code repeat t)
  with assms show ?thesis
    using pressJudgement_fresh [of j hs _ t s] by (auto split: if_splits option.splits)
next
  case (KeyUp code t)
  with assms show ?thesis by simp
next
  case (Frame t)
  with assms show ?thesis
    using frameJudgements_fresh [of j hs ns t s] by simp
qed

lemma stepJudgements_distinct: "distinct (map fst (stepJudgements hs ap ns s e))"
  by (cases e)
    (simp_all add: pressJudgement_distinct frameJudgements_distinct split: option.split)

lemma processedIndices_step:
  "processedIndices (step hs ap ns s e) =
   processedIndices s @ map fst (stepJudgements hs ap ns s e)"
proof -
  have "processedIndices (step hs ap ns s e) =
        processedIndices (foldl (applyJudgement hs) s (stepJudgements hs ap ns s e))"
    using core_step [of hs ap ns s e] by (simp add: core_def)
  then show ?thesis
    by (simp add: processedIndices_foldl_applyJudgement)
qed

lemma judgements_fresh:
  assumes "distinct (processedIndices s)"
  shows "distinct (processedIndices s @ map fst (judgements hs ap ns s evs)) \<and>
         (\<forall>j\<in>set (judgements hs ap ns s evs). fst j < length hs)"
  using assms
proof (induction evs arbitrary: s)
  case Nil
  then show ?case by simp
next
  case (Cons e es)
  have d: "distinct (processedIndices (step hs ap ns s e))"
    using Cons.prems stepJudgements_distinct [of hs ap ns s e]
      stepJudgements_fresh [of _ hs ap ns s e]
    by (auto simp: processedIndices_step)
  show ?case
    using Cons.IH [OF d] stepJudgements_fresh [of _ hs ap ns s e]
    by (auto simp: processedIndices_step)
qed

lemma judgements_append:
  "judgements hs ap ns s (evs @ evs') =
   judgements hs ap ns s evs @ judgements hs ap ns (foldl (step hs ap ns) s evs) evs'"
  by (induction evs arbitrary: s) simp_all

lemma count_le_1_if_distinct: "distinct xs \<Longrightarrow> count_list xs x \<le> 1"
  by (induction xs) (auto simp: count_list_0_iff)

lemma initialState_fields:
  "score initialState = 0" "combo initialState = 0" "maxCombo initialState = 0"
  "perfect initialState = 0" "good initialState = 0" "bad initialState = 0"
  "miss initialState = 0" "processedIndices initialState = []"
  "gs_accuracy (currentStats initialState) = 101"
  by (simp_all add: initialState_def)

text \<open>
  Claim C4. In every run from the initial state, for every chart, note speed and sequence
  of key events and frames: no note index occurs twice among the judgements made (so a note
  leaves Pending at most once, is never both resolved by a press and missed by a frame, and
  is never judged again); the indices judged are notes of the chart; the processed indices
  are exactly the judged ones, in order; each counter is the number of judgements of its
  type, so the four counters together count the processed notes, one increment per note;
  and events that follow only add judgements after the ones already made.
\<close>

theorem note_judged_at_most_once:
  "count_list (map fst (judgements hs ap ns initialState evs)) i \<le> 1 \<and>
   (i \<in> set (map fst (judgements hs ap ns initialState evs)) \<longrightarrow> i < length hs) \<and>
   processedIndices (run hs ap ns evs) = map fst (judgements hs ap ns initialState evs) \<and>
   perfect (run hs ap ns evs) =
     int (count_list (map snd (judgements hs ap ns initialState evs)) Perfect) \<and>
   good (run hs ap ns evs) =
     int (count_list (map snd (judgements hs ap ns initialState evs)) Good) \<and>
   bad (run hs ap ns evs) =
     int (count_list (map snd (judgements hs ap ns initialState evs)) Bad) \<and>
   miss (run hs ap ns evs) =
     int (count_list (map snd (judgements hs ap ns initialState evs)) Miss) \<and>
   perfect (run hs ap ns evs) + good (run hs ap ns evs) + bad (run hs ap ns evs) +
     miss (run hs ap ns evs) = int (length (processedIndices (run hs ap ns evs))) \<and>
   judgements hs ap ns initialState (evs @ evs') =
     judgements hs ap ns initialState evs @ judgements hs ap ns (run hs ap ns evs) evs'"
proof -
  let ?J = "judgements hs ap ns initialState evs"
  have fresh: "distinct (map fst ?J) \<and> (\<forall>j\<in>set ?J. fst j < length hs)"
    using judgements_fresh [of initialState hs ap ns evs] by (simp add: initialState_fields)
  have c: "core (run hs ap ns evs) = core (foldl (applyJudgement hs) initialState ?J)"
    unfolding run_def by (rule core_run)
  then have p: "processedIndices (run hs ap ns evs) = map fst ?J"
    by (simp add: core_def processedIndices_foldl_applyJudgement initialState_fields)
  have sb: "scoreboard (run hs ap ns evs) = scoreboard (foldl (applyJudgement hs) initialState ?J)"
    using c by (simp add: core_def)
  have counters:
    "perfect (run hs ap ns evs) = int (count_list (map snd ?J) Perfect)"
    "good (run hs ap ns evs) = int (count_list (map snd ?J) Good)"
    "bad (run hs ap ns evs) = int (count_list (map snd ?J) Bad)"
    "miss (run hs ap ns evs) = int (count_list (map snd ?J) Miss)"
    using sb by (simp_all add: scoreboard_def foldl_applyJudgement_counters initialState_fields)
  have total: "perfect (run hs ap ns evs) + good (run hs ap ns evs) + bad (run hs ap ns evs) +
     miss (run hs ap ns evs) = int (length (processedIndices (run hs ap ns evs)))"
    using count_by_type(1) [of "map snd ?J"] by (simp add: counters p)
  have once: "count_list (map fst ?J) i \<le> 1"
    using fresh count_le_1_if_distinct [of "map fst ?J" i] by blast
  have range: "i \<in> set (map fst ?J) \<longrightarrow> i < length hs"
    using fresh by auto
  have app: "judgements hs ap ns initialState (evs @ evs') =
     ?J @ judgements hs ap ns (run hs ap ns evs) evs'"
    by (simp add: judgements_append run_def)
  show ?thesis
    using once range p counters total app by simp
qed

theorem note_judged_at_most_once_witness:
  "judgements [tapNote 1000 0, tapNote 2000 0] False (4 / 5) initialState
     [KeyDown ''KeyJ'' False 1000, KeyDown ''KeyJ'' False 1010, Frame 2170, Frame 2180] =
     [(0, Perfect), (1, Miss)] \<and>
   count_list (map fst (judgements [tapNote 1000 0, tapNote 2000 0] False (4 / 5) initialState
     [KeyDown ''KeyJ'' False 1000, KeyDown ''KeyJ'' False 1010, Frame 2170, Frame 2180])) 0 \<le> 1 \<and>
   processedIndices (run [tapNote 1000 0, tapNote 2000 0] False (4 / 5)
     [KeyDown ''KeyJ'' False 1000, KeyDown ''KeyJ'' False 1010, Frame 2170, Frame 2180]) = [0, 1] \<and>
   perfect (run [tapNote 1000 0, tapNote 2000 0] False (4 / 5)
     [KeyDown ''KeyJ'' False 1000, KeyDown ''KeyJ'' False 1010, Frame 2170, Frame 2180]) = 1 \<and>
   miss (run [tapNote 1000 0, tapNote 2000 0] False (4 / 5)
     [KeyDown ''KeyJ'' False 1000, KeyDown ''KeyJ'' False 1010, Frame 2170, Frame 2180]) = 1"
proof -
  have J: "judgements [tapNote 1000 0, tapNote 2000 0] False (4 / 5) initialState
     [KeyDown ''KeyJ'' False 1000, KeyDown ''KeyJ'' False 1010, Frame 2170, Frame 2180] =
     [(0, Perfect), (1, Miss)]"
    by code_simp
  note once = note_judged_at_most_once [of "[tapNote 1000 0, tapNote 2000 0]" False "4 / 5"
        "[KeyDown ''KeyJ'' False 1000, KeyDown ''KeyJ'' False 1010, Frame 2170, Frame 2180]" 0
        "[]"]
  from once [unfolded J] show ?thesis
    unfolding J by simp
qed

text \<open>
  Claim C10. After every sequence of key events and frames the combo is at least 0 and
  at most \<open>maxCombo\<close>; and whatever events follow, the score, \<open>maxCombo\<close> and the four
  counters are at least what they were.
\<close>

theorem counters_never_decrease:
  "0 \<le> combo (run hs ap ns evs) \<and> combo (run hs ap ns evs) \<le> maxCombo (run hs ap ns evs) \<and>
   score (run hs ap ns evs) \<le> score (run hs ap ns (evs @ evs')) \<and>
   maxCombo (run hs ap ns evs) \<le> maxCombo (run hs ap ns (evs @ evs')) \<and>
   perfect (run hs ap ns evs) \<le> perfect (run hs ap ns (evs @ evs')) \<and>
   good (run hs ap ns evs) \<le> good (run hs ap ns (evs @ evs')) \<and>
   bad (run hs ap ns evs) \<le> bad (run hs ap ns (evs @ evs')) \<and>
   miss (run hs ap ns evs) \<le> miss (run hs ap ns (evs @ evs'))"
proof -
  let ?s = "run hs ap ns evs"
  let ?J = "judgements hs ap ns initialState evs"
  let ?J' = "judgements hs ap ns ?s evs'"
  have "scoreboard ?s = scoreboard (foldl (applyJudgement hs) initialState ?J)"
    using core_run [of hs ap ns initialState evs] by (simp add: core_def run_def)
  then have inv: "0 \<le> combo ?s \<and> combo ?s \<le> maxCombo ?s"
    using foldl_applyJudgement_combo(2) [of initialState hs ?J]
    by (simp add: scoreboard_def initialState_fields)
  have "run hs ap ns (evs @ evs') = foldl (step hs ap ns) ?s evs'"
    by (simp add: run_def)
  then have later: "scoreboard (run hs ap ns (evs @ evs')) =
      scoreboard (foldl (applyJudgement hs) ?s ?J')"
    using core_run [of hs ap ns ?s evs'] by (simp add: core_def)
  have "score ?s \<le> score (foldl (applyJudgement hs) ?s ?J')"
    using points_nonneg [of "map snd ?J'"] by (simp add: foldl_applyJudgement_counters)
  moreover have "maxCombo ?s \<le> maxCombo (foldl (applyJudgement hs) ?s ?J')"
    by (rule foldl_applyJudgement_combo(1))
  moreover have "perfect ?s \<le> perfect (foldl (applyJudgement hs) ?s ?J')"
    "good ?s \<le> good (foldl (applyJudgement hs) ?s ?J')"
    "bad ?s \<le> bad (foldl (applyJudgement hs) ?s ?J')"
    "miss ?s \<le> miss (foldl (applyJudgement hs) ?s ?J')"
    by (simp_all add: foldl_applyJudgement_counters)
  ultimately show ?thesis
    using inv later by (simp add: scoreboard_def)
qed

theorem counters_never_decrease_witness:
  "combo (run [tapNote 1000 0, tapNote 2000 0] False (4 / 5)
     [KeyDown ''KeyJ'' False 1000]) = 1 \<and>
   maxCombo (run [tapNote 1000 0, tapNote 2000 0] False (4 / 5)
     [KeyDown ''KeyJ'' False 1000]) = 1 \<and>
   combo (run [tapNote 1000 0, tapNote 2000 0] False (4 / 5)
     ([KeyDown ''KeyJ'' False 1000] @ [Frame 2170])) = 0 \<and>
   maxCombo (run [tapNote 1000 0, tapNote 2000 0] False (4 / 5)
     [KeyDown ''KeyJ'' False 1000]) \<le>
   maxCombo (run [tapNote 1000 0, tapNote 2000 0] False (4 / 5)
     ([KeyDown ''KeyJ'' False 1000] @ [Frame 2170])) \<and>
   score (run [tapNote 1000 0, tapNote 2000 0] False (4 / 5)
     [KeyDown ''KeyJ'' False 1000]) \<le>
   score (run [tapNote 1000 0, tapNote 2000 0] False (4 / 5)
     ([KeyDown ''KeyJ'' False 1000] @ [Frame 2170]))"
proof -
  have a: "combo (run [tapNote 1000 0, tapNote 2000 0] False (4 / 5)
     [KeyDown ''KeyJ'' False 1000]) = 1"
    by code_simp
  have b: "maxCombo (run [tapNote 1000 0, tapNote 2000 0] False (4 / 5)
     [KeyDown ''KeyJ'' False 1000]) = 1"
    by code_simp
  have c: "combo (run [tapNote 1000 0, tapNote 2000 0] False (4 / 5)
     ([KeyDown ''KeyJ'' False 1000] @ [Frame 2170])) = 0"
    by code_simp
  show ?thesis
    using counters_never_decrease [of "[tapNote 1000 0, tapNote 2000 0]" False "4 / 5"
        "[KeyDown ''KeyJ'' False 1000]" "[Frame 2170]"] a b c
    by simp
qed

lemma accuracy_updateStats:
  "gs_accuracy (currentStats (updateStats hs s)) =
     (if 0 < perfect s + good s + bad s + miss s
      then real_of_int (perfect s * 300 + good s * 100 + bad s * 50) /
           real_of_int ((perfect s + good s + bad s + miss s) * 300) * 101
      else 101)"
  by (simp add: updateStats_def Let_def)

lemma registerHit_is_updateStats:
  "\<exists>s'. registerHit hs ty s = updateStats hs s' \<and> scoreboard s' = scoreboard (registerHit hs ty s)"
proof -
  have "registerHit hs ty s = updateStats hs
       (if ty = Miss then s\<lparr>combo := 0, miss := miss s + 1\<rparr>
        else
          (let s1 = s\<lparr>combo := combo s + 1\<rparr>;
               s2 = (if combo s1 > maxCombo s1 then s1\<lparr>maxCombo := combo s1\<rparr> else s1);
               s3 = (if ty = Perfect
                     then s2\<lparr>score := score s2 + 300, perfect := perfect s2 + 1\<rparr> else s2);
               s4 = (if ty = Good
                     then s3\<lparr>score := score s3 + 100, good := good s3 + 1\<rparr> else s3);
               s5 = (if ty = Bad
                     then s4\<lparr>score := score s4 + 50, bad := bad s4 + 1\<rparr> else s4)
           in s5))"
    by (simp only: registerHit_def)
  then show ?thesis
    by (metis scoreboard_def updateStats_fields(1-7))
qed

lemma accuracy_registerHit:
  "gs_accuracy (currentStats (registerHit hs ty s)) =
     (if 0 < perfect (registerHit hs ty s) + good (registerHit hs ty s) +
             bad (registerHit hs ty s) + miss (registerHit hs ty s)
      then real_of_int (perfect (registerHit hs ty s) * 300 + good (registerHit hs ty s) * 100 +
             bad (registerHit hs ty s) * 50) /
           real_of_int ((perfect (registerHit hs ty s) + good (registerHit hs ty s) +
             bad (registerHit hs ty s) + miss (registerHit hs ty s)) * 300) * 101
      else 101)"
proof -
  obtain s' where s': "registerHit hs ty s = updateStats hs s'"
    and sb: "scoreboard s' = scoreboard (registerHit hs ty s)"
    using registerHit_is_updateStats by blast
  have "gs_accuracy (currentStats (registerHit hs ty s)) =
      gs_accuracy (currentStats (updateStats hs s'))"
    by (simp only: s')
  also have "\<dots> = (if 0 < perfect s' + good s' + bad s' + miss s'
      then real_of_int (perfect s' * 300 + good s' * 100 + bad s' * 50) /
           real_of_int ((perfect s' + good s' + bad s' + miss s') * 300) * 101
      else 101)"
    by (rule accuracy_updateStats)
  finally show ?thesis
    using sb by (simp add: scoreboard_def)
qed

lemma accuracy_foldl_applyJudgement:
  assumes "perfect s = 0" "good s = 0" "bad s = 0" "miss s = 0"
    and "gs_accuracy (currentStats s) = 101"
  shows "gs_accuracy (currentStats (foldl (applyJudgement hs) s js)) = accuracyOf (map snd js)"
proof (cases js rule: rev_cases)
  case Nil
  then show ?thesis using assms by (simp add: accuracyOf_def)
next
  case (snoc js' j)
  let ?f = "foldl (applyJudgement hs) s js"
  have f: "?f = registerHit hs (snd j)
      ((foldl (applyJudgement hs) s js')\<lparr>processedIndices :=
          processedIndices (foldl (applyJudgement hs) s js') @ [fst j]\<rparr>)"
    by (simp add: snoc applyJudgement_def)
  have acc: "gs_accuracy (currentStats ?f) =
     (if 0 < perfect ?f + good ?f + bad ?f + miss ?f
      then real_of_int (perfect ?f * 300 + good ?f * 100 + bad ?f * 50) /
           real_of_int ((perfect ?f + good ?f + bad ?f + miss ?f) * 300) * 101
      else 101)"
    unfolding f by (rule accuracy_registerHit)
  have n: "perfect ?f + good ?f + bad ?f + miss ?f = int (length (map snd js))"
    using count_by_type(1) [of "map snd js"] assms
    by (simp add: foldl_applyJudgement_counters)
  have pts: "perfect ?f * 300 + good ?f * 100 + bad ?f * 50 = sum_list (map points (map snd js))"
    using count_by_type(2) [of "map snd js"] assms
    by (simp add: foldl_applyJudgement_counters)
  have pos: "0 < int (length (map snd js))"
    by (simp add: snoc)
  show ?thesis
    unfolding acc n pts using pos by (simp add: accuracyOf_def snoc)
qed

text \<open>
  Claim C6. After every sequence of key events and frames, the accuracy in the statistics
  is \<open>accuracyOf\<close> of the judgements made so far: the points earned over 300 per judged note
  (misses included) times 101, and 101 when nothing was judged. The initial statistics give
  101, a single Perfect gives 101, and a Perfect followed by a Miss gives 50.5.
\<close>

theorem accuracy_of_run:
  "gs_accuracy (currentStats (run hs ap ns evs)) =
     accuracyOf (map snd (judgements hs ap ns initialState evs)) \<and>
   accuracyOf [] = 101 \<and>
   gs_accuracy (currentStats initialState) = 101 \<and>
   gs_accuracy (currentStats (registerHit hs Perfect initialState)) = 101 \<and>
   gs_accuracy (currentStats (registerHit hs Miss (registerHit hs Perfect initialState))) = 101 / 2"
proof -
  have "currentStats (run hs ap ns evs) =
      currentStats (foldl (applyJudgement hs) initialState (judgements hs ap ns initialState evs))"
    using core_run [of hs ap ns initialState evs] by (simp add: core_def run_def)
  then have run: "gs_accuracy (currentStats (run hs ap ns evs)) =
     accuracyOf (map snd (judgements hs ap ns initialState evs))"
    by (simp add: accuracy_foldl_applyJudgement initialState_fields)
  have one: "gs_accuracy (currentStats (registerHit hs Perfect initialState)) = 101"
    by (simp add: accuracy_registerHit registerHit_Perfect initialState_fields)
  have two: "gs_accuracy (currentStats (registerHit hs Miss (registerHit hs Perfect initialState)))
      = 101 / 2"
    by (simp add: accuracy_registerHit registerHit_Perfect registerHit_Miss initialState_fields)
  show ?thesis
    using run one two by (simp add: accuracyOf_def initialState_fields)
qed

theorem accuracy_of_run_witness:
  "gs_accuracy (currentStats (run [tapNote 1000 0, tapNote 2000 0] False (4 / 5)
     [KeyDown ''KeyJ'' False 1000, Frame 2170])) = 101 / 2 \<and>
   gs_accuracy (currentStats (run [tapNote 1000 0, tapNote 2000 0] False (4 / 5)
     [KeyDown ''KeyJ'' False 1000])) = 101 \<and>
   gs_accuracy (currentStats (run [tapNote 1000 0, tapNote 2000 0] False (4 / 5) [])) = 101"
proof -
  have J2: "judgements [tapNote 1000 0, tapNote 2000 0] False (4 / 5) initialState
     [KeyDown ''KeyJ'' False 1000, Frame 2170] = [(0, Perfect), (1, Miss)]"
    by code_simp
  have J1: "judgements [tapNote 1000 0, tapNote 2000 0] False (4 / 5) initialState
     [KeyDown ''KeyJ'' False 1000] = [(0, Perfect)]"
    by code_simp
  note a2 = accuracy_of_run [of "[tapNote 1000 0, tapNote 2000 0]" False "4 / 5"
      "[KeyDown ''KeyJ'' False 1000, Frame 2170]"]
  note a1 = accuracy_of_run [of "[tapNote 1000 0, tapNote 2000 0]" False "4 / 5"
      "[KeyDown ''KeyJ'' False 1000]"]
  note a0 = accuracy_of_run [of "[tapNote 1000 0, tapNote 2000 0]" False "4 / 5" "[]"]
  from a2 [unfolded J2] a1 [unfolded J1] a0 show ?thesis
    by (simp add: accuracyOf_def)
qed

lemma foldl_set_add:
  "distinct acc \<Longrightarrow>
   distinct (foldl (\<lambda>acc h. set_add (f h) acc) acc xs) \<and>
   set (foldl (\<lambda>acc h. set_add (f h) acc) acc xs) = set acc \<union> f ` set xs"
proof (induction xs arbitrary: acc)
  case Nil
  then show ?case by simp
next
  case (Cons x xs)
  have "distinct (set_add (f x) acc)"
    using Cons.prems by (simp add: set_add_def)
  from Cons.IH [OF this] show ?case
    by (auto simp: set_add_def)
qed

lemma recentHits_as_map:
  "map snd (filter (\<lambda>(idx, obj). idx \<in> set (processedIndices s) \<and>
              (case time obj of NaN \<Rightarrow> False
               | Num tm \<Rightarrow> \<bar>real_of_int tm - t\<bar> < 40)) (enumerate 0 hs)) =
   map (\<lambda>i. hs ! i) (nearIndices hs t s)"
  by (simp add: enumerate_as_map filter_map comp_def nearIndices_def)

lemma detectPatterns_spec:
  "\<exists>L. distinct L \<and> set L = nearLanes hs t s \<and>
       detectPatterns hs t s =
         (if 2 \<le> card (nearLanes hs t s) then s\<lparr>geoFlashes := geoFlashes s @ [L]\<rparr> else s)"
proof -
  let ?L = "foldl (\<lambda>acc h. set_add (column h) acc) [] (map (\<lambda>i. hs ! i) (nearIndices hs t s))"
  have L: "distinct ?L \<and> set ?L = nearLanes hs t s"
    using foldl_set_add [of "[]" column "map (\<lambda>i. hs ! i) (nearIndices hs t s)"]
    by (simp add: nearLanes_def image_image)
  then have len: "length ?L = card (nearLanes hs t s)"
    using distinct_card [of ?L] by simp
  have "detectPatterns hs t s =
         (if 2 \<le> card (nearLanes hs t s) then s\<lparr>geoFlashes := geoFlashes s @ [?L]\<rparr> else s)"
    unfolding detectPatterns_def recentHits_as_map Let_def len spawnGeometricFlash_def
    by simp
  with L show ?thesis by blast
qed

lemma handleInput_down_ends_with_detectPatterns:
  "\<exists>s''. handleInput hs lanes True t s = detectPatterns hs t s'' \<and>
         processedIndices s'' = processedIndices s @ map fst (pressJudgement hs lanes t s) \<and>
         geoFlashes s'' = geoFlashes s"
proof (cases "findBestHit hs s t lanes")
  case None
  then have "handleInput hs lanes True t s = detectPatterns hs t s \<and>
         processedIndices s = processedIndices s @ map fst (pressJudgement hs lanes t s) \<and>
         geoFlashes s = geoFlashes s"
    by (simp add: handleInput_def pressJudgement_def)
  then show ?thesis by blast
next
  case (Some b)
  have fresh: "bh_idx b \<notin> set (processedIndices s)"
    using findBestHit_isCandidate [OF Some] by (simp add: isCandidate_def)
  show ?thesis
  proof (cases "judge (bh_diff b) (bh_absDiff b)")
    case None
    with Some have "handleInput hs lanes True t s = detectPatterns hs t s \<and>
         processedIndices s = processedIndices s @ map fst (pressJudgement hs lanes t s) \<and>
         geoFlashes s = geoFlashes s"
      by (simp add: handleInput_def pressJudgement_def)
    then show ?thesis by blast
  next
    case (Some ty)
    have "geoFlashes (resolveHit hs b ty s) = geoFlashes s"
      by (simp add: resolveHit_def Let_def registerHit_frame)
    with Some \<open>findBestHit hs s t lanes = Some b\<close> resolveHit_effect(1) [OF fresh, of hs ty]
    have "handleInput hs lanes True t s = detectPatterns hs t (resolveHit hs b ty s) \<and>
         processedIndices (resolveHit hs b ty s) =
           processedIndices s @ map fst (pressJudgement hs lanes t s) \<and>
         geoFlashes (resolveHit hs b ty s) = geoFlashes s"
      by (simp add: handleInput_def pressJudgement_def)
    then show ?thesis by blast
  qed
qed

lemma geoFlashes_handleInput_up: "geoFlashes (handleInput hs lanes False t s) = geoFlashes s"
proof -
  have "geoFlashes (foldl (releaseLane hs) s ls) = geoFlashes s" for ls
    by (induction ls arbitrary: s) (simp_all add: releaseLane_def split: option.split)
  then show ?thesis by (simp add: handleInput_def)
qed

lemma geoFlashes_gameLoop: "geoFlashes (gameLoop hs ns t s) = geoFlashes s"
  by (simp only: gameLoop_as_misses foldl_missOne)

lemma detectPatterns_only_flashes:
  "detectPatterns hs t s = s\<lparr>geoFlashes := geoFlashes (detectPatterns hs t s)\<rparr>"
  by (simp add: detectPatterns_def spawnGeometricFlash_def Let_def)

text \<open>
  Three runs. Notes at 1000, 1100 and 1200 in three lanes, pressed at 1100, 1110 and 1120:
  all three are judged within 20 ms and no flash is emitted, because their times are not
  within 40 ms of one clock. Notes at 1000 in three lanes, pressed at 950, 1000 and 1050:
  judged 50 ms apart, and the second press emits a flash for two lanes. The same notes
  pressed at 1000, 1010 and 1020, followed by a press of a fourth key at 1030 that judges
  nothing: a two-lane flash, a three-lane flash, and the three-lane flash again.
\<close>

theorem flash_follows_note_times_counterexample:
  "processedIndices (run [tapNote 1000 0, tapNote 1100 2, tapNote 1200 4] False (4 / 5)
     [KeyDown ''KeyJ'' False 1100, KeyDown ''KeyK'' False 1110, KeyDown ''KeyD'' False 1120])
     = [0, 1, 2] \<and>
   geoFlashes (run [tapNote 1000 0, tapNote 1100 2, tapNote 1200 4] False (4 / 5)
     [KeyDown ''KeyJ'' False 1100, KeyDown ''KeyK'' False 1110, KeyDown ''KeyD'' False 1120])
     = [] \<and>
   processedIndices (run [tapNote 1000 0, tapNote 1000 2, tapNote 1000 4] False (4 / 5)
     [KeyDown ''KeyJ'' False 950, KeyDown ''KeyK'' False 1000, KeyDown ''KeyD'' False 1050])
     = [0, 1, 2] \<and>
   geoFlashes (run [tapNote 1000 0, tapNote 1000 2, tapNote 1000 4] False (4 / 5)
     [KeyDown ''KeyJ'' False 950, KeyDown ''KeyK'' False 1000, KeyDown ''KeyD'' False 1050])
     = [[Num 0, Num 2]] \<and>
   geoFlashes (run [tapNote 1000 0, tapNote 1000 2, tapNote 1000 4] False (4 / 5)
     [KeyDown ''KeyJ'' False 1000, KeyDown ''KeyK'' False 1010, KeyDown ''KeyD'' False 1020,
      KeyDown ''KeyF'' False 1030])
     = [[Num 0, Num 2], [Num 0, Num 2, Num 4], [Num 0, Num 2, Num 4]]"
  by code_simp

text \<open>
  Claim C9, as amended. Every key-down that reaches \<open>handleInput\<close> ends with
  \<open>detectPatterns\<close>, run on the state after the press was judged, whether or not it judged
  a note: it collects the processed notes whose time is less than 40 ms from the clock of
  the press and emits one flash carrying their lanes, each once, exactly when there are at
  least two distinct lanes. A key-up and a frame emit nothing. \<open>detectPatterns\<close> changes no
  field but the list of flashes, so it affects no grade, counter or score.
\<close>

theorem flash_on_every_key_down:
  "(\<exists>s'' L. handleInput hs lanes True t s = detectPatterns hs t s'' \<and>
      processedIndices s'' = processedIndices s @ map fst (pressJudgement hs lanes t s) \<and>
      geoFlashes s'' = geoFlashes s \<and>
      distinct L \<and> set L = nearLanes hs t s'' \<and>
      geoFlashes (handleInput hs lanes True t s) =
        (if 2 \<le> card (nearLanes hs t s'') then geoFlashes s @ [L] else geoFlashes s)) \<and>
   geoFlashes (handleInput hs lanes False t s) = geoFlashes s \<and>
   geoFlashes (gameLoop hs ns t s) = geoFlashes s \<and>
   detectPatterns hs t s = s\<lparr>geoFlashes := geoFlashes (detectPatterns hs t s)\<rparr>"
proof -
  obtain s'' where down: "handleInput hs lanes True t s = detectPatterns hs t s''"
    and p: "processedIndices s'' = processedIndices s @ map fst (pressJudgement hs lanes t s)"
    and g: "geoFlashes s'' = geoFlashes s"
    using handleInput_down_ends_with_detectPatterns by blast
  obtain L where L: "distinct L" "set L = nearLanes hs t s''"
    and d: "detectPatterns hs t s'' =
         (if 2 \<le> card (nearLanes hs t s'') then s''\<lparr>geoFlashes := geoFlashes s'' @ [L]\<rparr> else s'')"
    using detectPatterns_spec by blast
  have "geoFlashes (handleInput hs lanes True t s) =
        (if 2 \<le> card (nearLanes hs t s'') then geoFlashes s @ [L] else geoFlashes s)"
    unfolding down d using g by simp
  with down p g L have
    "\<exists>s'' L. handleInput hs lanes True t s = detectPatterns hs t s'' \<and>
      processedIndices s'' = processedIndices s @ map fst (pressJudgement hs lanes t s) \<and>
      geoFlashes s'' = geoFlashes s \<and>
      distinct L \<and> set L = nearLanes hs t s'' \<and>
      geoFlashes (handleInput hs lanes True t s) =
        (if 2 \<le> card (nearLanes hs t s'') then geoFlashes s @ [L] else geoFlashes s)"
    by blast
  then show ?thesis
    using geoFlashes_handleInput_up [of hs lanes t s] geoFlashes_gameLoop [of hs ns t s]
      detectPatterns_only_flashes [of hs t s]
    by blast
qed

theorem flash_on_every_key_down_witness:
  "(\<exists>L. distinct L \<and> set L = {Num 0, Num 2, Num 4} \<and>
      geoFlashes (handleInput [tapNote 1000 0, tapNote 1000 2, tapNote 1000 4] [4, 5] True 1020
        (run [tapNote 1000 0, tapNote 1000 2, tapNote 1000 4] False (4 / 5)
           [KeyDown ''KeyJ'' False 1000, KeyDown ''KeyK'' False 1010])) =
      [[Num 0, Num 2], L]) \<and>
   geoFlashes (handleInput [tapNote 1000 0, tapNote 1000 2, tapNote 1000 4] [4, 5] False 1020
        (run [tapNote 1000 0, tapNote 1000 2, tapNote 1000 4] False (4 / 5)
           [KeyDown ''KeyJ'' False 1000, KeyDown ''KeyK'' False 1010])) = [[Num 0, Num 2]] \<and>
   geoFlashes (gameLoop [tapNote 1000 0, tapNote 1000 2, tapNote 1000 4] (4 / 5) 1020
        (run [tapNote 1000 0, tapNote 1000 2, tapNote 1000 4] False (4 / 5)
           [KeyDown ''KeyJ'' False 1000, KeyDown ''KeyK'' False 1010])) = [[Num 0, Num 2]]"
proof -
  let ?hs = "[tapNote 1000 0, tapNote 1000 2, tapNote 1000 4]"
  let ?S = "run ?hs False (4 / 5) [KeyDown ''KeyJ'' False 1000, KeyDown ''KeyK'' False 1010]"
  have S: "processedIndices ?S = [0, 1]" "geoFlashes ?S = [[Num 0, Num 2]]"
    by code_simp+
  have J: "pressJudgement ?hs [4, 5] 1020 ?S = [(2, Perfect)]"
    by code_simp
  obtain s'' L where p: "processedIndices s'' = processedIndices ?S @ map fst (pressJudgement ?hs [4, 5] 1020 ?S)"
    and L: "distinct L" "set L = nearLanes ?hs 1020 s''"
    and g: "geoFlashes (handleInput ?hs [4, 5] True 1020 ?S) =
        (if 2 \<le> card (nearLanes ?hs 1020 s'') then geoFlashes ?S @ [L] else geoFlashes ?S)"
    and up: "geoFlashes (handleInput ?hs [4, 5] False 1020 ?S) = geoFlashes ?S"
    and loop: "geoFlashes (gameLoop ?hs (4 / 5) 1020 ?S) = geoFlashes ?S"
    using flash_on_every_key_down [of ?hs "[4, 5]" 1020 ?S "4 / 5"] by blast
  have p': "processedIndices s'' = [0, 1, 2]"
    unfolding p S J by simp
  have near: "nearLanes ?hs 1020 s'' = {Num 0, Num 2, Num 4}"
    unfolding nearLanes_def nearIndices_def p'
    by (simp add: tapNote_def upt_rec [of 0] upt_rec [of 1] upt_rec [of 2])
  have "geoFlashes (handleInput ?hs [4, 5] True 1020 ?S) = [[Num 0, Num 2], L]"
    unfolding g near S by simp
  with L near up loop S show ?thesis
    by auto
qed

section \<open>Properties of the chart decoder\<close>

lemma parseHitObject_Inl:
  "parseHitObject cs line = Inl e \<Longrightarrow> e = TypeError \<and> truncatedHold line"
  by (auto simp: parseHitObject_def Let_def truncatedHold_def holdFlag_def elemAt_def
      split: if_splits option.splits)


lemma clampColumn_range: "clampColumn c = Num n \<Longrightarrow> 0 \<le> n \<and> n \<le> 7"
  by (cases c) (auto simp: clampColumn_def)

lemma parseHitObject_Inr:
  assumes "parseHitObject cs line = Inr h"
  shows "xpos h = parseInt (elemAt (split (CHR '','') line) 0)"
    and "time h = parseInt (elemAt (split (CHR '','') line) 2)"
    and "type h = parseInt (elemAt (split (CHR '','') line) 3)"
    and "(endTime h \<noteq> None) = holdFlag (type h)"
    and "column h = Num n \<Longrightarrow> 0 \<le> n \<and> n \<le> 7"
proof -
  let ?parts = "split (CHR '','') line"
  let ?x = "parseInt (elemAt ?parts 0)"
  let ?tm = "parseInt (elemAt ?parts 2)"
  let ?col0 = "rawColumn ?x cs"
  let ?col = "clampColumn (if cs = Num 4
                 then (case ?col0 of NaN \<Rightarrow> NaN | Num c \<Rightarrow> Num (quadrant ?tm c))
                 else ?col0)"
  have shape: "xpos h = ?x \<and> time h = ?tm \<and> type h = parseInt (elemAt ?parts 3) \<and>
      (endTime h \<noteq> None) = holdFlag (type h) \<and> column h = ?col"
    using assms
    by (auto simp: parseHitObject_def Let_def holdFlag_def split: if_splits option.splits)
  then show "xpos h = ?x" "time h = ?tm" "type h = parseInt (elemAt ?parts 3)"
    "(endTime h \<noteq> None) = holdFlag (type h)"
    by simp_all
  show "0 \<le> n \<and> n \<le> 7" if "column h = Num n"
    using shape that clampColumn_range [of _ n] by simp
qed

lemma parseLine_Inl:
  "parseLine st l = Inl e \<Longrightarrow> e = TypeError \<and> truncatedHold (trim l)"
  using parseHitObject_Inl [of "circleSize st" "trim l" e]
  by (auto simp: parseLine_def Let_def split: if_splits prod.splits sum.splits)

lemma parseLine_hitObjects:
  assumes "parseLine st l = Inr st'"
  shows "hitObjects (data st') = hitObjects (data st) \<or>
         (\<exists>h. parseHitObject (circleSize st) (trim l) = Inr h \<and>
              hitObjects (data st') = hitObjects (data st) @ [h])"
proof -
  have ev: "hitObjects (parseEvent x d) = hitObjects d" for x d
    by (simp add: parseEvent_def Let_def)
  show ?thesis
    using assms ev
    by (auto simp: parseLine_def Let_def split: if_splits prod.splits sum.splits)
qed

lemma parseLines_Inl:
  "parseLines st ls = Inl e \<Longrightarrow> e = TypeError \<and> (\<exists>l\<in>set ls. truncatedHold (trim l))"
proof (induction ls arbitrary: st)
  case Nil
  then show ?case by simp
next
  case (Cons l ls)
  show ?case
  proof (cases "parseLine st l")
    case (Inl e')
    with Cons.prems have "e' = e" by simp
    with Inl parseLine_Inl [of st l e] show ?thesis by simp
  next
    case (Inr st')
    with Cons.prems have "parseLines st' ls = Inl e" by simp
    from Cons.IH [OF this] show ?thesis by simp
  qed
qed

lemma parseLines_total:
  assumes "\<forall>l\<in>set ls. \<not> truncatedHold (trim l)"
  shows "\<exists>st'. parseLines st ls = Inr st'"
proof (cases "parseLines st ls")
  case (Inl e)
  with parseLines_Inl [of st ls e] assms show ?thesis by blast
next
  case (Inr st')
  then show ?thesis by blast
qed

lemma parseLines_invariant:
  assumes "parseLines st ls = Inr st'"
    and "\<forall>h\<in>set (hitObjects (data st)). P h"
    and "\<And>cs line h. parseHitObject cs line = Inr h \<Longrightarrow> P h"
  shows "\<forall>h\<in>set (hitObjects (data st')). P h"
  using assms(1,2)
proof (induction ls arbitrary: st)
  case Nil
  then show ?case by simp
next
  case (Cons l ls)
  from Cons.prems(1) obtain st1 where l: "parseLine st l = Inr st1"
    and rest: "parseLines st1 ls = Inr st'"
    by (cases "parseLine st l") simp_all
  have "\<forall>h\<in>set (hitObjects (data st1)). P h"
    using parseLine_hitObjects [OF l] Cons.prems(2) assms(3) by auto
  from Cons.IH [OF rest this] show ?case .
qed

lemma set_insertByTime: "set (insertByTime a bs) = insert a (set bs)"
  by (induction bs) auto

lemma set_sortByTime: "set (sortByTime hs) = set hs"
  by (induction hs) (simp_all add: sortByTime_def set_insertByTime)

lemma timeLe_total: "isNum (time a) \<Longrightarrow> isNum (time b) \<Longrightarrow> \<not> timeAfter a b \<Longrightarrow> timeLe a b"
  by (cases "time a"; cases "time b") (simp_all add: isNum_def timeAfter_def timeLe_def)

lemma timeAfter_timeLe: "timeAfter a b \<Longrightarrow> timeLe b a"
  by (cases "time a"; cases "time b") (simp_all add: timeAfter_def timeLe_def)

lemma timeLe_trans: "timeLe a b \<Longrightarrow> timeLe b c \<Longrightarrow> timeLe a c"
  by (cases "time a"; cases "time b"; cases "time c") (simp_all add: timeLe_def)

lemma sorted_insertByTime:
  assumes "isNum (time a)" and "\<forall>b\<in>set bs. isNum (time b)" and "sorted_wrt timeLe bs"
  shows "sorted_wrt timeLe (insertByTime a bs)"
  using assms(2,3)
proof (induction bs)
  case Nil
  then show ?case by simp
next
  case (Cons b bs)
  show ?case
  proof (cases "timeAfter a b")
    case True
    have "sorted_wrt timeLe (insertByTime a bs)"
      using Cons by simp
    moreover have "\<forall>c\<in>set (insertByTime a bs). timeLe b c"
      using Cons.prems(2) timeAfter_timeLe [OF True] by (auto simp: set_insertByTime)
    ultimately show ?thesis
      using True by simp
  next
    case False
    have ab: "timeLe a b"
      using timeLe_total [OF assms(1) _ False] Cons.prems(1) by simp
    then have "\<forall>c\<in>set bs. timeLe a c"
      using Cons.prems(2) timeLe_trans [of a b] by auto
    with ab Cons.prems(2) False show ?thesis by simp
  qed
qed

lemma sorted_sortByTime:
  "\<forall>h\<in>set hs. isNum (time h) \<Longrightarrow> sorted_wrt timeLe (sortByTime hs)"
proof (induction hs)
  case Nil
  then show ?case by (simp add: sortByTime_def)
next
  case (Cons h hs)
  have "sorted_wrt timeLe (insertByTime h (sortByTime hs))"
    using Cons by (intro sorted_insertByTime) (simp_all add: set_sortByTime)
  then show ?case by (simp add: sortByTime_def)
qed

text \<open>
  Two charts the decoder accepts. A hold line whose end time 500 is before its time 1000
  is decoded as it stands. A line whose \<open>x\<close> is not a number gets the lane \<open>NaN\<close>.
\<close>

theorem hold_end_and_lane_unchecked_counterexample:
  "decodedNotes (joinLines [''[HitObjects]'', ''64,192,1000,128,0,500:0:0:0:0:'']) =
     Some [(Num 1000, Some (Num 500), Num 5)] \<and>
   decodedNotes (joinLines [''[HitObjects]'', ''abc,192,1000,1,0,0:0:0:0:'']) =
     Some [(Num 1000, None, NaN)]"
  by code_simp

lemma parseHitObject_endTime:
  assumes "parseHitObject cs line = Inr h" and "holdFlag (type h)"
  shows "\<exists>extra. elemAt (split (CHR '','') line) 5 = Some extra \<and>
           endTime h = Some (parseInt (elemAt (split (CHR '':'') extra) 0))"
  using assms
  by (auto simp: parseHitObject_def Let_def holdFlag_def split: if_splits option.splits)

lemma parseHitObject_column_NaN:
  assumes "parseHitObject cs line = Inr h"
  shows "(column h = NaN) = (xpos h = NaN \<or> cs = NaN)"
proof -
  let ?parts = "split (CHR '','') line"
  let ?x = "parseInt (elemAt ?parts 0)"
  let ?tm = "parseInt (elemAt ?parts 2)"
  have shape: "xpos h = ?x \<and>
      column h = clampColumn (if cs = Num 4
                 then (case rawColumn ?x cs of NaN \<Rightarrow> NaN | Num c \<Rightarrow> Num (quadrant ?tm c))
                 else rawColumn ?x cs)"
    using assms
    by (auto simp: parseHitObject_def Let_def split: if_splits option.splits)
  have raw: "(rawColumn ?x cs = NaN) = (?x = NaN \<or> cs = NaN)"
    by (cases ?x; cases cs) (simp_all add: rawColumn_def)
  have clamp: "(clampColumn c = NaN) = (c = NaN)" for c
    by (cases c) (simp_all add: clampColumn_def)
  have "(column h = NaN) = (rawColumn ?x cs = NaN)"
    by (cases "rawColumn ?x cs") (auto simp: shape clamp)
  then show ?thesis
    using raw shape by simp
qed

text \<open>
  Claim C7, as amended. For every chart text the decoder accepts: if the time of every
  note is a number, the timeline is sorted, each time at most the next; every lane that is
  a number lies between 0 and 7; and a note has an end time exactly when bit 7 of its type is
  set. The decoder never compares an end time with the time. Line by line, the lane of the
  note a line gives is \<open>NaN\<close> exactly when its \<open>x\<close> or the circle size in force is \<open>NaN\<close>,
  and the end time of a hold note is what \<open>parseInt\<close> reads at the start of the sixth field.
\<close>

theorem decoded_timeline:
  "(parseOsuText chart = Inr d \<longrightarrow>
     ((\<forall>h\<in>set (hitObjects d). isNum (time h)) \<longrightarrow> sorted_wrt timeLe (hitObjects d)) \<and>
     (\<forall>h\<in>set (hitObjects d). \<forall>n. column h = Num n \<longrightarrow> 0 \<le> n \<and> n \<le> 7) \<and>
     (\<forall>h\<in>set (hitObjects d). (endTime h \<noteq> None) = holdFlag (type h))) \<and>
   (parseHitObject cs line = Inr h \<longrightarrow>
     (column h = NaN) = (xpos h = NaN \<or> cs = NaN) \<and>
     (holdFlag (type h) \<longrightarrow>
        (\<exists>extra. elemAt (split (CHR '','') line) 5 = Some extra \<and>
           endTime h = Some (parseInt (elemAt (split (CHR '':'') extra) 0)))))"
proof (rule conjI; rule impI)
  assume ok: "parseOsuText chart = Inr d"
  let ?st0 = "\<lparr>currentSection = [], data = initialData, circleSize = Num 4\<rparr>"
  from ok obtain st where st: "parseLines ?st0 (split (CHR 0x0A) chart) = Inr st"
    and d: "d = (data st)\<lparr>hitObjects := sortByTime (hitObjects (data st))\<rparr>"
    by (auto simp: parseOsuText_def split: sum.splits)
  have objs: "set (hitObjects d) = set (hitObjects (data st))"
    by (simp add: d set_sortByTime)
  have lane: "\<forall>h\<in>set (hitObjects (data st)). \<forall>n. column h = Num n \<longrightarrow> 0 \<le> n \<and> n \<le> 7"
    by (rule parseLines_invariant [OF st]) (use parseHitObject_Inr(5) in \<open>simp_all add: initialData_def\<close>)
  have hold: "\<forall>h\<in>set (hitObjects (data st)). (endTime h \<noteq> None) = holdFlag (type h)"
    by (rule parseLines_invariant [OF st]) (use parseHitObject_Inr(4) in \<open>simp_all add: initialData_def\<close>)
  have sorted: "sorted_wrt timeLe (hitObjects d)" if "\<forall>h\<in>set (hitObjects d). isNum (time h)"
    using that sorted_sortByTime [of "hitObjects (data st)"] objs by (simp add: d)
  show "((\<forall>h\<in>set (hitObjects d). isNum (time h)) \<longrightarrow> sorted_wrt timeLe (hitObjects d)) \<and>
     (\<forall>h\<in>set (hitObjects d). \<forall>n. column h = Num n \<longrightarrow> 0 \<le> n \<and> n \<le> 7) \<and>
     (\<forall>h\<in>set (hitObjects d). (endTime h \<noteq> None) = holdFlag (type h))"
    using sorted lane hold objs by simp
next
  assume h: "parseHitObject cs line = Inr h"
  show "(column h = NaN) = (xpos h = NaN \<or> cs = NaN) \<and>
     (holdFlag (type h) \<longrightarrow>
        (\<exists>extra. elemAt (split (CHR '','') line) 5 = Some extra \<and>
           endTime h = Some (parseInt (elemAt (split (CHR '':'') extra) 0))))"
    using parseHitObject_column_NaN [OF h] parseHitObject_endTime [OF h] by blast
qed

theorem decoded_timeline_witness:
  "decodedNotes (joinLines [''[Difficulty]'', ''CircleSize:4'', ''[HitObjects]'',
      ''448,192,2000,1,0,0:0:0:0:'', ''64,192,1000,128,0,1500:0:0:0:0:'',
      ''192,192,500,1,0,0:0:0:0:'']) =
     Some [(Num 500, None, Num 6), (Num 1000, Some (Num 1500), Num 5), (Num 2000, None, Num 3)] \<and>
   (\<exists>d. parseOsuText (joinLines [''[Difficulty]'', ''CircleSize:4'', ''[HitObjects]'',
      ''448,192,2000,1,0,0:0:0:0:'', ''64,192,1000,128,0,1500:0:0:0:0:'',
      ''192,192,500,1,0,0:0:0:0:'']) = Inr d \<and>
      sorted_wrt timeLe (hitObjects d) \<and> list_all (\<lambda>h. isNum (column h)) (hitObjects d))"
proof -
  let ?T = "joinLines [''[Difficulty]'', ''CircleSize:4'', ''[HitObjects]'',
      ''448,192,2000,1,0,0:0:0:0:'', ''64,192,1000,128,0,1500:0:0:0:0:'',
      ''192,192,500,1,0,0:0:0:0:'']"
  let ?D = "initialData\<lparr>hitObjects :=
     [\<lparr>xpos = Num 192, ypos = Num 192, time = Num 500, type = Num 1,
       hitSound = Num 0, endTime = None, column = Num 6\<rparr>,
      \<lparr>xpos = Num 64, ypos = Num 192, time = Num 1000, type = Num 128,
       hitSound = Num 0, endTime = Some (Num 1500), column = Num 5\<rparr>,
      \<lparr>xpos = Num 448, ypos = Num 192, time = Num 2000, type = Num 1,
       hitSound = Num 0, endTime = None, column = Num 3\<rparr>]\<rparr>"
  have E: "parseOsuText ?T = Inr ?D"
    by code_simp
  have N: "decodedNotes ?T =
     Some [(Num 500, None, Num 6), (Num 1000, Some (Num 1500), Num 5), (Num 2000, None, Num 3)]"
    unfolding decodedNotes_def E by simp
  have nums: "\<forall>h\<in>set (hitObjects ?D). isNum (time h)"
    by (simp add: isNum_def)
  have "sorted_wrt timeLe (hitObjects ?D)"
    using decoded_timeline [of ?T ?D, THEN conjunct1] E nums by blast
  moreover have "list_all (\<lambda>h. isNum (column h)) (hitObjects ?D)"
    by (simp add: isNum_def)
  ultimately show ?thesis
    using E N by blast
qed















section \<open>Further properties\<close>

text \<open>
  The note a key-down selects is a nearest one: it is a note within reach on the pressed
  lanes, and no note within reach on these lanes is closer in time to the clock. No note
  is selected exactly when none is within reach.
\<close>

theorem findBestHit_nearest:
  "(findBestHit hs s t lanes = Some b \<longrightarrow>
      isCandidate hs s t (set lanes) b \<and>
      (\<forall>i. inReach hs s t (set lanes) i \<longrightarrow> bh_absDiff b \<le> \<bar>timeReal (hs ! i) - t\<bar>)) \<and>
   (findBestHit hs s t lanes = None) = (\<forall>i. \<not> inReach hs s t (set lanes) i)"
proof -
  have n: "(\<forall>b i. findBestHit hs s t lanes = Some b \<longrightarrow> inReach hs s t ({} \<union> set lanes) i \<longrightarrow>
            bh_absDiff b \<le> \<bar>timeReal (hs ! i) - t\<bar>) \<and>
         (findBestHit hs s t lanes = None \<longrightarrow> (\<forall>i. \<not> inReach hs s t ({} \<union> set lanes) i))"
    unfolding findBestHit_def
    by (rule foldl_laneStep_nearest) (simp_all add: inReach_def)
  have some: "\<exists>i. inReach hs s t (set lanes) i" if "findBestHit hs s t lanes = Some b" for b
  proof -
    have c: "isCandidate hs s t (set lanes) b"
      by (rule findBestHit_isCandidate [OF that])
    then have "inReach hs s t (set lanes) (bh_idx b)"
      by (auto simp: isCandidate_def inReach_def isNum_def timeReal_def HIT_WINDOW_BAD_def)
    then show ?thesis by blast
  qed
  show ?thesis
    using n some findBestHit_isCandidate [of hs s t lanes b]
    by (cases "findBestHit hs s t lanes") auto
qed

theorem findBestHit_nearest_witness:
  "findBestHit [tapNote 1000 0, tapNote 1050 1, tapNote 1100 0] initialState 1040 [0, 1] =
     Some \<lparr>bh_note = tapNote 1050 1, bh_idx = 1, bh_diff = 10, bh_absDiff = 10\<rparr> \<and>
   inReach [tapNote 1000 0, tapNote 1050 1, tapNote 1100 0] initialState 1040 (set [0, 1]) 0 \<and>
   bh_absDiff \<lparr>bh_note = tapNote 1050 1, bh_idx = 1, bh_diff = 10, bh_absDiff = 10\<rparr> \<le>
     \<bar>timeReal ([tapNote 1000 0, tapNote 1050 1, tapNote 1100 0] ! 0) - 1040\<bar> \<and>
   findBestHit [tapNote 1000 0] initialState 1040 [2, 3] = None"
proof -
  let ?hs = "[tapNote 1000 0, tapNote 1050 1, tapNote 1100 0]"
  let ?b = "\<lparr>bh_note = tapNote 1050 1, bh_idx = 1, bh_diff = 10, bh_absDiff = 10\<rparr>"
  have B: "findBestHit ?hs initialState 1040 [0, 1] = Some ?b"
    by (simp add: press_eval)
  have R: "inReach ?hs initialState 1040 (set [0, 1]) 0"
    by (simp add: inReach_def tapNote_def initialState_def isNum_def timeReal_def)
  have near: "bh_absDiff ?b \<le> \<bar>timeReal (?hs ! 0) - 1040\<bar>"
    using findBestHit_nearest [of ?hs initialState 1040 "[0, 1]" ?b, THEN conjunct1, THEN mp, OF B]
      R
    by blast
  have none: "\<forall>i. \<not> inReach [tapNote 1000 0] initialState 1040 (set [2, 3]) i"
    by (auto simp: inReach_def tapNote_def)
  have N: "findBestHit [tapNote 1000 0] initialState 1040 [2, 3] = None"
    using findBestHit_nearest [of "[tapNote 1000 0]" initialState 1040 "[2, 3]", THEN conjunct2]
      none
    by blast
  from B R near N show ?thesis
    by (intro conjI)
qed

lemma score_updateStats:
  "gs_score (currentStats (updateStats hs s)) =
     (if 0 < int (length hs) * 300
      then \<lfloor>real_of_int (perfect s * 300 + good s * 100 + bad s * 50) /
            real_of_int (int (length hs) * 300) * 1010000\<rfloor>
      else 0)"
  by (simp add: updateStats_def Let_def)

lemma score_registerHit:
  "gs_score (currentStats (registerHit hs ty s)) =
     (if 0 < int (length hs) * 300
      then \<lfloor>real_of_int (perfect (registerHit hs ty s) * 300 + good (registerHit hs ty s) * 100 +
              bad (registerHit hs ty s) * 50) /
            real_of_int (int (length hs) * 300) * 1010000\<rfloor>
      else 0)"
proof -
  obtain s' where s': "registerHit hs ty s = updateStats hs s'"
    and sb: "scoreboard s' = scoreboard (registerHit hs ty s)"
    using registerHit_is_updateStats by blast
  have "gs_score (currentStats (registerHit hs ty s)) = gs_score (currentStats (updateStats hs s'))"
    by (simp only: s')
  also have "\<dots> = (if 0 < int (length hs) * 300
      then \<lfloor>real_of_int (perfect s' * 300 + good s' * 100 + bad s' * 50) /
            real_of_int (int (length hs) * 300) * 1010000\<rfloor>
      else 0)"
    by (rule score_updateStats)
  finally show ?thesis
    using sb by (simp add: scoreboard_def)
qed

lemma distinct_bounded_length:
  assumes "distinct xs" and "\<forall>x\<in>set xs. x < (n::nat)"
  shows "length xs \<le> n"
proof -
  have "card (set xs) \<le> card {..<n}"
    by (rule card_mono) (use assms(2) in auto)
  then show ?thesis
    using distinct_card [OF assms(1)] by simp
qed

lemma floor_ratio_bound:
  assumes "0 \<le> p" and "p \<le> n * 300" and "0 < (n::int)"
  shows "\<lfloor>real_of_int p / real_of_int (n * 300) * 1010000\<rfloor> \<le> 1010000"
    and "\<lfloor>real_of_int p / real_of_int (n * 300) * 1010000\<rfloor> = 1010000 \<Longrightarrow> p = n * 300"
proof -
  have pos: "0 < real_of_int (n * 300)"
    using assms(3) by simp
  have le1: "real_of_int p / real_of_int (n * 300) \<le> 1"
    using assms(2) pos by (simp add: divide_le_eq)
  then have "real_of_int p / real_of_int (n * 300) * 1010000 \<le> 1010000"
    by simp
  then show "\<lfloor>real_of_int p / real_of_int (n * 300) * 1010000\<rfloor> \<le> 1010000"
    by (simp add: floor_le_iff)
  show "p = n * 300" if "\<lfloor>real_of_int p / real_of_int (n * 300) * 1010000\<rfloor> = 1010000"
  proof -
    have "1010000 \<le> real_of_int p / real_of_int (n * 300) * 1010000"
      using that by linarith
    then have "1 \<le> real_of_int p / real_of_int (n * 300)"
      by simp
    then have "real_of_int (n * 300) \<le> real_of_int p"
      using pos by (simp add: le_divide_eq)
    then have "n * 300 \<le> p"
      by linarith
    with assms(2) show ?thesis by simp
  qed
qed

text \<open>
  After every sequence of key events and frames the displayed score is at most 1,010,000,
  and it is 1,010,000 only when every note of the chart was registered as Perfect.
\<close>

theorem display_score_bound:
  "gs_score (currentStats (run hs ap ns evs)) \<le> 1010000 \<and>
   (gs_score (currentStats (run hs ap ns evs)) = 1010000 \<longrightarrow>
      perfect (run hs ap ns evs) = int (length hs))"
proof -
  let ?J = "judgements hs ap ns initialState evs"
  let ?s = "run hs ap ns evs"
  let ?f = "foldl (applyJudgement hs) initialState ?J"
  have c: "core ?s = core ?f"
    unfolding run_def by (rule core_run)
  have cs: "currentStats ?s = currentStats ?f" and sb: "scoreboard ?s = scoreboard ?f"
    using c by (simp_all add: core_def)
  have fresh: "distinct (map fst ?J) \<and> (\<forall>j\<in>set ?J. fst j < length hs)"
    using judgements_fresh [of initialState hs ap ns evs] by (simp add: initialState_fields)
  then have len: "length ?J \<le> length hs"
    using distinct_bounded_length [of "map fst ?J" "length hs"] by auto
  have P: "perfect ?f = int (count_list (map snd ?J) Perfect)"
    and G: "good ?f = int (count_list (map snd ?J) Good)"
    and B: "bad ?f = int (count_list (map snd ?J) Bad)"
    by (simp_all add: foldl_applyJudgement_counters initialState_fields)
  have total: "int (count_list (map snd ?J) Perfect) + int (count_list (map snd ?J) Good) +
      int (count_list (map snd ?J) Bad) \<le> int (length hs)"
    using count_by_type(1) [of "map snd ?J"] len by simp
  let ?p = "perfect ?f * 300 + good ?f * 100 + bad ?f * 50"
  have p0: "0 \<le> ?p" and pn: "?p \<le> int (length hs) * 300"
    using total by (simp_all add: P G B)
  have full: "perfect ?f = int (length hs)" if "?p = int (length hs) * 300"
    using that total by (simp add: P G B)
  show ?thesis
  proof (cases ?J rule: rev_cases)
    case Nil
    then have "gs_score (currentStats ?s) = 0"
      by (simp add: cs initialState_def)
    then show ?thesis by simp
  next
    case (snoc js j)
    have f: "?f = registerHit hs (snd j)
        ((foldl (applyJudgement hs) initialState js)\<lparr>processedIndices :=
           processedIndices (foldl (applyJudgement hs) initialState js) @ [fst j]\<rparr>)"
      by (simp add: snoc applyJudgement_def)
    have sc: "gs_score (currentStats ?f) =
       (if 0 < int (length hs) * 300
        then \<lfloor>real_of_int ?p / real_of_int (int (length hs) * 300) * 1010000\<rfloor>
        else 0)"
      unfolding f by (rule score_registerHit)
    show ?thesis
    proof (cases "0 < int (length hs)")
      case True
      then have sc': "gs_score (currentStats ?s) =
          \<lfloor>real_of_int ?p / real_of_int (int (length hs) * 300) * 1010000\<rfloor>"
        using sc cs by simp
      show ?thesis
        using floor_ratio_bound [OF p0 pn True] full sb
        unfolding sc' by (simp add: scoreboard_def)
    next
      case False
      then have "gs_score (currentStats ?s) = 0"
        using sc cs by simp
      then show ?thesis by simp
    qed
  qed
qed

theorem display_score_bound_witness:
  "gs_score (currentStats (run [tapNote 1000 0] False (4 / 5) [KeyDown ''KeyJ'' False 1000])) =
     1010000 \<and>
   perfect (run [tapNote 1000 0] False (4 / 5) [KeyDown ''KeyJ'' False 1000]) =
     int (length [tapNote 1000 0])"
proof -
  have full: "gs_score (currentStats (run [tapNote 1000 0] False (4 / 5)
      [KeyDown ''KeyJ'' False 1000])) = 1010000"
    by code_simp
  show ?thesis
    using display_score_bound [of "[tapNote 1000 0]" False "4 / 5" "[KeyDown ''KeyJ'' False 1000]"]
      full
    by blast
qed

text \<open>
  The decoder's quadrant mapping and the engine's key mapping agree: for a four-key
  chart, a note of raw column 0, 1, 2 or 3 is placed in one of the two lanes of the key D, F,
  J or K in that order, whatever its time.
\<close>

theorem quadrant_lane_belongs_to_key:
  "0 \<le> c \<and> c \<le> 3 \<longrightarrow>
     (\<exists>lanes. INPUT_MAPPING ([''KeyD'', ''KeyF'', ''KeyJ'', ''KeyK''] ! nat c) = Some lanes \<and>
        quadrant tm c \<in> set lanes) \<and>
     0 \<le> quadrant tm c \<and> quadrant tm c \<le> 7"
proof
  assume "0 \<le> c \<and> c \<le> 3"
  then consider "c = 0" | "c = 1" | "c = 2" | "c = 3"
    by linarith
  then show "(\<exists>lanes. INPUT_MAPPING ([''KeyD'', ''KeyF'', ''KeyJ'', ''KeyK''] ! nat c) = Some lanes \<and>
        quadrant tm c \<in> set lanes) \<and>
     0 \<le> quadrant tm c \<and> quadrant tm c \<le> 7"
    by cases (simp_all add: INPUT_MAPPING_def quadrant_def Let_def)
qed

theorem quadrant_lane_belongs_to_key_witness:
  "quadrant (Num 1000) 0 = 5 \<and> quadrant (Num 1020) 0 = 4 \<and> quadrant NaN 3 = 3 \<and>
   INPUT_MAPPING ([''KeyD'', ''KeyF'', ''KeyJ'', ''KeyK''] ! nat 0) = Some [4, 5]"
  using quadrant_lane_belongs_to_key [of 0 "Num 1000"]
  by (simp add: quadrant_def js_rem_def INPUT_MAPPING_def)

end
